theory Spec2Isabelle
  imports Complex_Main "HOL-Library.Char_ord" "HOL-Library.List_Lexorder"
    "HOL-Library.Multiset" "HOL-Library.Sublist"
begin

section \<open>Health service query (package dependency)\<close>

text \<open>
  Go strings are byte sequences compared bytewise and lexicographically; they are
  modelled as \<open>string\<close> with the lexicographic order on lists over the order on
  characters.
\<close>

subsection \<open>Constants\<close>

definition HealthAny :: string where "HealthAny = ''any''"
definition HealthPassing :: string where "HealthPassing = ''passing''"
definition HealthWarning :: string where "HealthWarning = ''warning''"
definition HealthCritical :: string where "HealthCritical = ''critical''"
definition HealthMaint :: string where "HealthMaint = ''maintenance''"

subsection \<open>Errors and panics\<close>

text \<open>
  \<open>ErrStopped\<close> is the stopped sentinel. \<open>InvalidFormat s\<close> stands for the error
  with message \<open>health.service: invalid format: s\<close>, \<open>InvalidFilter f s\<close> for
  \<open>health.service: invalid filter: f in s\<close>. \<open>ClientError\<close> is whatever error the
  Consul client returns, \<open>Wrap msg e\<close> is \<open>errors.Wrap(e, msg)\<close>. \<open>InvalidQuery s\<close> is
  the error of a constructor that rejects the query string \<open>s\<close>, \<open>ErrNoParentDir\<close> the
  sentinel \<open>errNoParentDir\<close> of the atomic writer.
\<close>

datatype error =
    ErrStopped
  | InvalidFormat string
  | InvalidFilter string string
  | ClientError string
  | Wrap string error
  | InvalidQuery string
  | ErrNoParentDir

text \<open>The run-time panic of Go's \<open>close\<close> on a channel that is already closed.\<close>

datatype panic = CloseOfClosedChannel

subsection \<open>Data\<close>

text \<open>
  The stop channel is created empty by the constructor and the query never sends on
  it, so it is either open and empty or closed.
\<close>

datatype chan = Open | Closed

text \<open>
  Modelled from the spec: \<open>QueryOptions\<close> and its \<open>Merge\<close> are declared elsewhere in the
  package. The options carry what section 4.1 lists for \<open>SetOptions\<close> (wait time, index
  token, datacenter) and the \<open>Near\<close> the query sets; \<open>Merge\<close> lets the non-zero fields of
  its argument override the receiver's. No property below depends on them.
\<close>

record QueryOptions =
  Datacenter :: string
  Near :: string
  WaitIndex :: nat
  WaitTime :: nat

definition Merge :: "QueryOptions \<Rightarrow> QueryOptions \<Rightarrow> QueryOptions" where
  "Merge q o' =
     \<lparr> Datacenter = (if Datacenter o' \<noteq> '''' then Datacenter o' else Datacenter q),
       Near = (if Near o' \<noteq> '''' then Near o' else Near q),
       WaitIndex = (if WaitIndex o' \<noteq> 0 then WaitIndex o' else WaitIndex q),
       WaitTime = (if WaitTime o' \<noteq> 0 then WaitTime o' else WaitTime q) \<rparr>"

record HealthServiceQuery =
  stopCh :: chan
  dc :: string
  filters :: "string list"
  name :: string
  near :: string
  tag :: string
  connect :: bool
  opts :: QueryOptions

text \<open>The Consul API's node, service, check and service entry, as far as the query reads them.\<close>

record ApiNode =
  n_ID :: string
  n_Node :: string
  n_Address :: string
  n_Datacenter :: string
  n_TaggedAddresses :: "(string \<times> string) list"
  n_Meta :: "(string \<times> string) list"

record ApiService =
  s_ID :: string
  s_Service :: string
  s_Tags :: "string list"
  s_Meta :: "(string \<times> string) list"
  s_Port :: int
  s_Address :: string
  s_Weights :: "int \<times> int"
  s_Namespace :: string

record HealthCheck =
  c_CheckID :: string
  c_Status :: string

record ServiceEntry =
  e_Node :: ApiNode
  e_Service :: ApiService
  e_Checks :: "HealthCheck list"

record QueryMeta =
  qm_LastIndex :: nat
  qm_LastContact :: nat

record ResponseMetadata =
  LastIndex :: nat
  LastContact :: nat

text \<open>\<open>dep.HealthService\<close>, the element of the list a fetch returns.\<close>

record HealthService =
  Node :: string
  NodeID :: string
  NodeAddress :: string
  NodeDatacenter :: string
  NodeTaggedAddresses :: "(string \<times> string) list"
  NodeMeta :: "(string \<times> string) list"
  ServiceMeta :: "(string \<times> string) list"
  Address :: string
  ID :: string
  Name :: string
  Tags :: "string list"
  Status :: string
  Checks :: "HealthCheck list"
  Port :: int
  Weights :: "int \<times> int"
  Namespace :: string

text \<open>
  The Consul client: its two health endpoints answer a request with an error or with
  the entries and the query metadata. Every request made is appended to a log, so
  that a fetch which issues no network I/O is one that leaves the log as it was.
\<close>

datatype call =
    CallService string string bool QueryOptions
  | CallConnect string string bool QueryOptions

type_synonym endpoint =
  "string \<Rightarrow> string \<Rightarrow> bool \<Rightarrow> QueryOptions \<Rightarrow> error + (ServiceEntry list \<times> QueryMeta)"

record Clients =
  Service :: endpoint
  Connect :: endpoint

subsection \<open>Stop\<close>

text \<open>
  \<open>Stop\<close> is \<open>close(d.stopCh)\<close>: closing an open channel closes it, closing a
  closed channel panics.
\<close>

definition close :: "chan \<Rightarrow> panic + chan" where
  "close c = (case c of Open \<Rightarrow> Inr Closed | Closed \<Rightarrow> Inl CloseOfClosedChannel)"

definition Stop :: "HealthServiceQuery \<Rightarrow> panic + HealthServiceQuery" where
  "Stop d = (case close (stopCh d) of
               Inl p \<Rightarrow> Inl p
             | Inr c \<Rightarrow> Inr (d\<lparr>stopCh := c\<rparr>))"

text \<open>\<open>CanShare\<close> and \<open>SetOptions\<close>.\<close>

definition CanShare :: "HealthServiceQuery \<Rightarrow> bool" where
  "CanShare d = True"

definition SetOptions :: "HealthServiceQuery \<Rightarrow> QueryOptions \<Rightarrow> HealthServiceQuery" where
  "SetOptions d o' = d\<lparr>opts := o'\<rparr>"

subsection \<open>String\<close>

fun Join :: "string list \<Rightarrow> string \<Rightarrow> string" where
  "Join [] sep = ''''"
| "Join [x] sep = x"
| "Join (x # y # ys) sep = x @ sep @ Join (y # ys) sep"

definition String :: "HealthServiceQuery \<Rightarrow> string" where
  "String d =
     (let n0 = name d;
          n1 = (if tag d \<noteq> '''' then tag d @ ''.'' @ n0 else n0);
          n2 = (if dc d \<noteq> '''' then n1 @ ''@'' @ dc d else n1);
          n3 = (if near d \<noteq> '''' then n2 @ ''~'' @ near d else n2);
          n4 = (if length (filters d) > 0 then n3 @ ''|'' @ Join (filters d) '','' else n3)
      in ''health.service('' @ n4 @ '')'')"

subsection \<open>Filter and order\<close>

fun acceptStatus :: "string list \<Rightarrow> string \<Rightarrow> bool" where
  "acceptStatus [] s = False"
| "acceptStatus (status # list) s =
     (if status = s \<or> status = HealthAny then True else acceptStatus list s)"

text \<open>
  \<open>ByNodeThenID.Less\<close>, on the two elements it reads.
\<close>

definition Less :: "HealthService \<Rightarrow> HealthService \<Rightarrow> bool" where
  "Less x y =
     (if Node x < Node y then True
      else if Node x = Node y then ID x \<le> ID y
      else False)"

subsection \<open>The sort\<close>

text \<open>
  \<open>sort.Stable\<close> belongs to the Go library. It reads and writes the data through
  \<open>Less\<close> and \<open>Swap\<close> only; \<open>lt x y\<close> below is \<open>Less\<close> on the elements at two
  indices. The library's \<open>stable\<close> sorts blocks of 20 elements by insertion and then
  merges neighbouring blocks with \<open>symMerge\<close>, doubling the block size, until one
  block holds the data. The definitions follow the library's functions
  \<open>insertionSort\<close>, \<open>swapRange\<close>, \<open>rotate\<close>, \<open>symMerge\<close> and \<open>stable\<close>. Indices are
  natural numbers: in the calls that \<open>stable\<close> makes no index expression is negative.
  \<^verbatim>\<open>
  func insertionSort(data Interface, a, b int) {
      for i := a + 1; i < b; i++ {
          for j := i; j > a && data.Less(j, j-1); j-- { data.Swap(j, j-1) }
      }
  }
  \<close>
\<close>

definition Swap :: "'a list \<Rightarrow> nat \<Rightarrow> nat \<Rightarrow> 'a list" where
  "Swap xs i j = xs[i := xs ! j, j := xs ! i]"

fun insertionInner :: "('a \<Rightarrow> 'a \<Rightarrow> bool) \<Rightarrow> 'a list \<Rightarrow> nat \<Rightarrow> nat \<Rightarrow> 'a list" where
  "insertionInner lt xs a 0 = xs"
| "insertionInner lt xs a (Suc j) =
     (if Suc j > a \<and> lt (xs ! Suc j) (xs ! j)
      then insertionInner lt (Swap xs (Suc j) j) a j
      else xs)"

function insertionOuter ::
  "('a \<Rightarrow> 'a \<Rightarrow> bool) \<Rightarrow> 'a list \<Rightarrow> nat \<Rightarrow> nat \<Rightarrow> nat \<Rightarrow> 'a list" where
  "insertionOuter lt xs a i b =
     (if i < b then insertionOuter lt (insertionInner lt xs a i) a (Suc i) b else xs)"
  by pat_completeness auto
termination
  by (relation "measure (\<lambda>(lt, xs, a, i, b). b - i)") auto

declare insertionOuter.simps [simp del]

definition insertionSort :: "('a \<Rightarrow> 'a \<Rightarrow> bool) \<Rightarrow> 'a list \<Rightarrow> nat \<Rightarrow> nat \<Rightarrow> 'a list" where
  "insertionSort lt xs a b = insertionOuter lt xs a (a + 1) b"

text \<open>
  \<open>swapRange\<close> swaps the \<open>n\<close> elements from \<open>a\<close> with the \<open>n\<close> elements from \<open>b\<close>.
  \<open>rotate\<close> exchanges the neighbouring blocks \<open>data[a:m]\<close> and \<open>data[m:b]\<close>:
  \<^verbatim>\<open>
  i := m - a
  j := b - m
  for i != j {
      if i > j { swapRange(data, m-i, m, j); i -= j
      } else   { swapRange(data, m-i, m+j-i, i); j -= i }
  }
  swapRange(data, m-i, m, i)
  \<close>
  The loop ends when both blocks are non-empty, which is how \<open>symMerge\<close> calls it
  (\<open>start < m && m < end\<close>); the loop of the definition also stops when a block is
  empty.
\<close>

definition swapRange :: "'a list \<Rightarrow> nat \<Rightarrow> nat \<Rightarrow> nat \<Rightarrow> 'a list" where
  "swapRange xs a b n = fold (\<lambda>i xs. Swap xs (a + i) (b + i)) [0..<n] xs"

function rotateLoop :: "'a list \<Rightarrow> nat \<Rightarrow> nat \<Rightarrow> nat \<Rightarrow> 'a list" where
  "rotateLoop xs m i j =
     (if i \<noteq> j \<and> 0 < i \<and> 0 < j
      then (if i > j then rotateLoop (swapRange xs (m - i) m j) m (i - j) j
            else rotateLoop (swapRange xs (m - i) (m + j - i) i) m i (j - i))
      else swapRange xs (m - i) m i)"
  by pat_completeness auto
termination
  by (relation "measure (\<lambda>(xs, m, i, j). i + j)") auto

declare rotateLoop.simps [simp del]

definition rotate_seg :: "'a list \<Rightarrow> nat \<Rightarrow> nat \<Rightarrow> nat \<Rightarrow> 'a list" where
  "rotate_seg xs a m b = rotateLoop xs m (m - a) (b - m)"

text \<open>
  The three binary searches of \<open>symMerge\<close> are one loop with three tests \<open>P\<close>:
  \<^verbatim>\<open>
  for i < j {
      h := int(uint(i+j) >> 1)
      if P(h) { i = h + 1 } else { j = h }
  }
  \<close>
\<close>

function search :: "(nat \<Rightarrow> bool) \<Rightarrow> nat \<Rightarrow> nat \<Rightarrow> nat" where
  "search P i j =
     (if i < j
      then (let h = (i + j) div 2 in
            if P h then search P (h + 1) j else search P i h)
      else i)"
  by pat_completeness auto
termination
  by (relation "measure (\<lambda>(P, i, j). j - i)") auto

declare search.simps [simp del]

text \<open>
  \<open>symMerge\<close> merges the sorted neighbours \<open>data[a:m]\<close> and \<open>data[m:b]\<close>. A block of
  one element is inserted into the other block: the search looks for the place
  (\<open>data.Less(h, a)\<close>, respectively \<open>!data.Less(m, h)\<close>) and the element is swapped
  there step by step. Otherwise the search with \<open>!data.Less(p-c, c)\<close> finds the split,
  the blocks between \<open>start\<close> and \<open>end\<close> are rotated, and the two halves are merged
  by the recursive calls.
\<close>

function symMerge :: "('a \<Rightarrow> 'a \<Rightarrow> bool) \<Rightarrow> 'a list \<Rightarrow> nat \<Rightarrow> nat \<Rightarrow> nat \<Rightarrow> 'a list" where
  "symMerge lt xs a m b =
     (if m - a = 1
      then (let i = search (\<lambda>h. lt (xs ! h) (xs ! a)) m b
            in fold (\<lambda>k xs. Swap xs k (k + 1)) [a..<i - 1] xs)
      else if b - m = 1
      then (let i = search (\<lambda>h. \<not> lt (xs ! m) (xs ! h)) a m
            in fold (\<lambda>k xs. Swap xs k (k - 1)) (rev [i + 1..<m + 1]) xs)
      else (let mid = (a + b) div 2;
                n = mid + m;
                start0 = (if m > mid then n - b else a);
                r = (if m > mid then mid else m);
                p = n - 1;
                start = search (\<lambda>c. \<not> lt (xs ! (p - c)) (xs ! c)) start0 r;
                e = n - start;
                xs1 = (if start < m \<and> m < e then rotate_seg xs start m e else xs);
                xs2 = (if a < start \<and> start < mid then symMerge lt xs1 a start mid else xs1)
            in if mid < e \<and> e < b then symMerge lt xs2 mid e b else xs2))"
  by pat_completeness auto
termination
proof (relation "measure (\<lambda>(lt, xs, a, m, b). b - a)", goal_cases)
  case 1
  show ?case by simp
next
  case (2 lt xs a m b mid n start0 r p start e xs1)
  from \<open>mid = (a + b) div 2\<close> \<open>a < start \<and> start < mid\<close> have "mid - a < b - a"
    by presburger
  then show ?case by simp
next
  case (3 lt xs a m b mid n start0 r p start e xs1 xs2)
  from \<open>mid = (a + b) div 2\<close> \<open>mid < e \<and> e < b\<close> have "b - mid < b - a"
    by presburger
  then show ?case by simp
qed

declare symMerge.simps [simp del]

text \<open>
  \<open>stable\<close>: the block size starts at 20 and doubles after every pass of merges, so
  in pass \<open>k\<close> it is \<open>blockSize k\<close>.
  \<^verbatim>\<open>
  blockSize := 20
  a, b := 0, blockSize
  for b <= n { insertionSort(data, a, b); a = b; b += blockSize }
  insertionSort(data, a, n)
  for blockSize < n {
      a, b = 0, 2*blockSize
      for b <= n { symMerge(data, a, a+blockSize, b); a = b; b += 2 * blockSize }
      if m := a + blockSize; m < n { symMerge(data, a, m, n) }
      blockSize *= 2
  }
  \<close>
\<close>

definition blockSize :: "nat \<Rightarrow> nat" where
  "blockSize k = 20 * 2 ^ k"

function insertionBlocks ::
  "('a \<Rightarrow> 'a \<Rightarrow> bool) \<Rightarrow> 'a list \<Rightarrow> nat \<Rightarrow> nat \<Rightarrow> nat \<Rightarrow> 'a list" where
  "insertionBlocks lt xs a b n =
     (if b \<le> n then insertionBlocks lt (insertionSort lt xs a b) b (b + blockSize 0) n
      else insertionSort lt xs a n)"
  by pat_completeness auto
termination
  by (relation "measure (\<lambda>(lt, xs, a, b, n). Suc n - b)") (auto simp: blockSize_def)

declare insertionBlocks.simps [simp del]

function mergeBlocks ::
  "('a \<Rightarrow> 'a \<Rightarrow> bool) \<Rightarrow> 'a list \<Rightarrow> nat \<Rightarrow> nat \<Rightarrow> nat \<Rightarrow> nat \<Rightarrow> 'a list" where
  "mergeBlocks lt xs a b n k =
     (if b \<le> n
      then mergeBlocks lt (symMerge lt xs a (a + blockSize k) b) b (b + 2 * blockSize k) n k
      else (if a + blockSize k < n then symMerge lt xs a (a + blockSize k) n else xs))"
  by pat_completeness auto
termination
proof (relation "measure (\<lambda>(lt, xs, a, b, n, k). Suc n - b)", goal_cases)
  case 1
  show ?case by simp
next
  case (2 lt xs a b n k)
  have "0 < blockSize k" by (simp add: blockSize_def)
  with 2 show ?case by simp
qed

declare mergeBlocks.simps [simp del]

function mergePasses :: "('a \<Rightarrow> 'a \<Rightarrow> bool) \<Rightarrow> 'a list \<Rightarrow> nat \<Rightarrow> nat \<Rightarrow> 'a list" where
  "mergePasses lt xs n k =
     (if blockSize k < n
      then mergePasses lt (mergeBlocks lt xs 0 (2 * blockSize k) n k) n (k + 1)
      else xs)"
  by pat_completeness auto
termination
proof (relation "measure (\<lambda>(lt, xs, n, k). n - blockSize k)", goal_cases)
  case 1
  show ?case by simp
next
  case (2 lt xs n k)
  have "blockSize k < blockSize (k + 1)" by (simp add: blockSize_def)
  with 2 show ?case by simp
qed

declare mergePasses.simps [simp del]

definition stable :: "('a \<Rightarrow> 'a \<Rightarrow> bool) \<Rightarrow> 'a list \<Rightarrow> nat \<Rightarrow> 'a list" where
  "stable lt xs n = mergePasses lt (insertionBlocks lt xs 0 (blockSize 0) n) n 0"

definition Stable :: "('a \<Rightarrow> 'a \<Rightarrow> bool) \<Rightarrow> 'a list \<Rightarrow> 'a list" where
  "Stable lt xs = stable lt xs (length xs)"

subsection \<open>Strings\<close>

text \<open>
  \<open>strings.Split\<close> on a one-byte separator: the pieces between the separators, one
  piece (the empty string) for the empty string.
\<close>

fun Split :: "string \<Rightarrow> char \<Rightarrow> string list" where
  "Split [] sep = [] # []"
| "Split (c # cs) sep =
     (if c = sep then [] # Split cs sep
      else (case Split cs sep of
              [] \<Rightarrow> [c] # []
            | piece # pieces \<Rightarrow> (c # piece) # pieces))"

text \<open>
  \<open>strings.TrimSpace\<close> removes the leading and trailing white space, as Unicode
  defines it; the list holds the UTF-8 encodings of the white-space code points.
\<close>

definition space_runes :: "string list" where
  "space_runes =
     [ [CHR 0x09], [CHR 0x0A], [CHR 0x0B], [CHR 0x0C], [CHR 0x0D], [CHR 0x20],
      [CHR 0xC2, CHR 0x85], [CHR 0xC2, CHR 0xA0], [CHR 0xE1, CHR 0x9A, CHR 0x80],
      [CHR 0xE2, CHR 0x80, CHR 0x80], [CHR 0xE2, CHR 0x80, CHR 0x81],
      [CHR 0xE2, CHR 0x80, CHR 0x82], [CHR 0xE2, CHR 0x80, CHR 0x83],
      [CHR 0xE2, CHR 0x80, CHR 0x84], [CHR 0xE2, CHR 0x80, CHR 0x85],
      [CHR 0xE2, CHR 0x80, CHR 0x86], [CHR 0xE2, CHR 0x80, CHR 0x87],
      [CHR 0xE2, CHR 0x80, CHR 0x88], [CHR 0xE2, CHR 0x80, CHR 0x89],
      [CHR 0xE2, CHR 0x80, CHR 0x8A], [CHR 0xE2, CHR 0x80, CHR 0xA8],
      [CHR 0xE2, CHR 0x80, CHR 0xA9], [CHR 0xE2, CHR 0x80, CHR 0xAF],
      [CHR 0xE2, CHR 0x81, CHR 0x9F], [CHR 0xE3, CHR 0x80, CHR 0x80] ]"

function trim_runes :: "string list \<Rightarrow> string \<Rightarrow> string" where
  "trim_runes rs s =
     (case List.find (\<lambda>r. r \<noteq> [] \<and> take (length r) s = r) rs of
        None \<Rightarrow> s
      | Some r \<Rightarrow> trim_runes rs (drop (length r) s))"
  by pat_completeness auto
termination
proof (relation "measure (\<lambda>(rs, s). length s)")
  show "wf (measure (\<lambda>(rs, s). length s))" by simp
next
  fix rs :: "string list" and s r :: string
  assume "List.find (\<lambda>r. r \<noteq> [] \<and> take (length r) s = r) rs = Some r"
  then have r: "r \<noteq> []" and t: "take (length r) s = r"
    by (auto simp: find_Some_iff)
  from r t have "s \<noteq> []" by auto
  with r show "((rs, drop (length r) s), (rs, s)) \<in> measure (\<lambda>(rs, s). length s)"
    by (cases r; cases s) auto
qed

definition TrimSpace :: "string \<Rightarrow> string" where
  "TrimSpace s = rev (trim_runes (map rev space_runes) (rev (trim_runes space_runes s)))"

subsection \<open>The constructor\<close>

text \<open>
  The regular expression is assembled from \<open>tagRe\<close>, \<open>serviceNameRe\<close>, \<open>dcRe\<close>,
  \<open>nearRe\<close> and \<open>filterRe\<close>, which are declared elsewhere in the package. It is a
  parameter \<open>re\<close>: \<open>re s = None\<close> when \<open>MatchString\<close> fails, and \<open>re s = Some m\<close>
  with \<open>m\<close> the named groups \<open>regexpMatch\<close> returns (the empty string for a group that
  did not take part).
\<close>

type_synonym regexp = "string \<Rightarrow> (string \<Rightarrow> string) option"

text \<open>
  The loop over the pieces of the filter clause; \<open>sort.Strings\<close> then sorts the
  filters it collected.
\<close>

fun filterLoop :: "string list \<Rightarrow> string \<Rightarrow> string list \<Rightarrow> error + string list" where
  "filterLoop [] s fs = Inr fs"
| "filterLoop (f # split) s fs =
     (let f' = TrimSpace f in
      if f' = HealthAny \<or> f' = HealthPassing \<or> f' = HealthWarning
         \<or> f' = HealthCritical \<or> f' = HealthMaint
      then filterLoop split s (fs @ [f'])
      else if f' = '''' then filterLoop split s fs
      else Inl (InvalidFilter f' s))"

definition healthServiceQuery :: "regexp \<Rightarrow> string \<Rightarrow> bool \<Rightarrow> error + HealthServiceQuery" where
  "healthServiceQuery re s con =
     (case re s of
        None \<Rightarrow> Inl (InvalidFormat s)
      | Some m \<Rightarrow>
          (case (if m ''filter'' \<noteq> ''''
                 then map_sum id sort (filterLoop (Split (m ''filter'') (CHR '','')) s [])
                 else Inr [HealthPassing]) of
             Inl e \<Rightarrow> Inl e
           | Inr fs \<Rightarrow>
               Inr \<lparr> stopCh = Open, dc = m ''dc'', filters = fs, name = m ''name'',
                     near = m ''near'', tag = m ''tag'', connect = con,
                     opts = \<lparr> Datacenter = '''', Near = '''', WaitIndex = 0, WaitTime = 0 \<rparr> \<rparr>))"

definition NewHealthServiceQuery :: "regexp \<Rightarrow> string \<Rightarrow> error + HealthServiceQuery" where
  "NewHealthServiceQuery re s = healthServiceQuery re s False"

definition NewHealthConnectQuery :: "regexp \<Rightarrow> string \<Rightarrow> error + HealthServiceQuery" where
  "NewHealthConnectQuery re s = healthServiceQuery re s True"

subsection \<open>The fetch\<close>

text \<open>
  Two functions the fetch calls are defined outside the query's file and are
  parameters: \<open>AggregatedStatus\<close>, a method of the Consul API's health checks, and the
  package's helper \<open>deepCopyAndSortTags\<close>. The entries the client returns carry a node
  and a service. \<open>ToConsulOpts\<close> converts the options to the client's type and is left
  out.
\<close>

record Library =
  AggregatedStatus :: "HealthCheck list \<Rightarrow> string"
  deepCopyAndSortTags :: "string list \<Rightarrow> string list"

definition toHealthService :: "Library \<Rightarrow> ServiceEntry \<Rightarrow> string \<Rightarrow> HealthService" where
  "toHealthService lib entry status =
     (let address = (if s_Address (e_Service entry) = ''''
                     then n_Address (e_Node entry)
                     else s_Address (e_Service entry))
      in \<lparr> Node = n_Node (e_Node entry),
           NodeID = n_ID (e_Node entry),
           NodeAddress = n_Address (e_Node entry),
           NodeDatacenter = n_Datacenter (e_Node entry),
           NodeTaggedAddresses = n_TaggedAddresses (e_Node entry),
           NodeMeta = n_Meta (e_Node entry),
           ServiceMeta = s_Meta (e_Service entry),
           Address = address,
           ID = s_ID (e_Service entry),
           Name = s_Service (e_Service entry),
           Tags = deepCopyAndSortTags lib (s_Tags (e_Service entry)),
           Status = status,
           Checks = e_Checks entry,
           Port = s_Port (e_Service entry),
           Weights = s_Weights (e_Service entry),
           Namespace = s_Namespace (e_Service entry) \<rparr>)"

fun entriesLoop :: "Library \<Rightarrow> string list \<Rightarrow> ServiceEntry list \<Rightarrow> HealthService list" where
  "entriesLoop lib fs [] = []"
| "entriesLoop lib fs (entry # entries) =
     (let status = AggregatedStatus lib (e_Checks entry) in
      if \<not> acceptStatus fs status then entriesLoop lib fs entries
      else toHealthService lib entry status # entriesLoop lib fs entries)"

definition Fetch ::
  "Library \<Rightarrow> Clients \<Rightarrow> HealthServiceQuery \<Rightarrow> call list
   \<Rightarrow> (error + HealthService list \<times> ResponseMetadata) \<times> call list" where
  "Fetch lib clients d calls =
     (case stopCh d of
        Closed \<Rightarrow> (Inl ErrStopped, calls)
      | Open \<Rightarrow>
          (let opts' = Merge (opts d)
                         \<lparr> Datacenter = dc d, Near = near d, WaitIndex = 0, WaitTime = 0 \<rparr>;
               passingOnly = (length (filters d) = 1 \<and> filters d ! 0 = HealthPassing);
               nodes = (if connect d then Connect clients else Service clients);
               calls' = calls @ [(if connect d then CallConnect else CallService)
                               (name d) (tag d) passingOnly opts']
           in case nodes (name d) (tag d) passingOnly opts' of
                Inl err \<Rightarrow> (Inl (Wrap (String d) err), calls')
              | Inr (entries, qm) \<Rightarrow>
                  (let list = entriesLoop lib (filters d) entries;
                       list' = (if near d = '''' then Stable Less list else list);
                       rm = \<lparr> LastIndex = qm_LastIndex qm, LastContact = qm_LastContact qm \<rparr>
                   in (Inr (list', rm), calls'))))"

text \<open>
  For the proofs: the insertion of the inner loop as a function on lists
  (\<open>ins_back lt x ys\<close> moves \<open>x\<close> into \<open>ys\<close>, the part of the block before it,
  reversed), and the state between two passes of \<open>stable\<close>, in which every block of
  the block size is sorted.
\<close>

fun ins_back :: "('a \<Rightarrow> 'a \<Rightarrow> bool) \<Rightarrow> 'a \<Rightarrow> 'a list \<Rightarrow> 'a list" where
  "ins_back lt x [] = [x]"
| "ins_back lt x (y # ys) = (if lt x y then y # ins_back lt x ys else x # y # ys)"

definition runs_sorted :: "('a \<Rightarrow> 'a \<Rightarrow> bool) \<Rightarrow> nat \<Rightarrow> 'a list \<Rightarrow> bool" where
  "runs_sorted lt bs xs = (\<forall>i. sorted_wrt lt (take bs (drop (i * bs) xs)))"

section \<open>Lease check wait (package dependency)\<close>

text \<open>
  Modelled from the spec: \<open>dep.Secret\<close> is declared elsewhere; the test
  \<open>TestVaultRenewDuration\<close> sets its fields \<open>LeaseDuration\<close>, \<open>Renewable\<close> and \<open>Data\<close>.
  The values of \<open>Data\<close> are JSON numbers and strings; \<open>number s k\<close> is the number under
  the key \<open>k\<close>, if there is one.
\<close>

datatype json = Number int | Str string

record Secret =
  LeaseDuration :: int
  Renewable :: bool
  Data :: "string \<rightharpoonup> json"

definition number :: "Secret \<Rightarrow> string \<Rightarrow> int option" where
  "number s k = (case Data s k of Some (Number n) \<Rightarrow> Some n | _ \<Rightarrow> None)"

text \<open>
  Durations are real numbers of seconds. A uniform random duration in \<open>[lo, hi]\<close> is
  \<open>uniform lo hi r\<close> for the random draw \<open>r\<close>, a number between 0 and 1 that is an
  argument of the function.
\<close>

definition uniform :: "real \<Rightarrow> real \<Rightarrow> real \<Rightarrow> real" where
  "uniform lo hi r = lo + r * (hi - lo)"

text \<open>
  Modelled from the spec: \<open>leaseCheckWait\<close> is defined elsewhere in the package; the
  test \<open>TestVaultRenewDuration\<close> calls it. The cases are those of section 4.2 of the
  specification, in its order: a renewable lease sleeps a uniform random duration in
  \<open>[LeaseDuration/6, LeaseDuration/3]\<close>; a non-renewable lease whose data carries
  \<open>rotation_period\<close> and \<open>ttl\<close> sleeps \<open>ttl + 1\<close> seconds, with \<open>rotation_period\<close> as
  ceiling; a non-renewable lease whose data carries a positive \<open>secret_id_ttl\<close> sleeps
  \<open>secret_id_ttl + 1\<close> seconds; when \<open>secret_id_ttl\<close> is 0 or missing the lease
  duration is used, as for every other non-renewable lease: a uniform random duration
  in \<open>[0.85 * LeaseDuration, 0.95 * LeaseDuration]\<close>.
  The test's case \<open>secret ID handling\<close> bounds the duration by 0.85 and 0.95 of
  \<open>secret_id_ttl + 1\<close> (of \<open>LeaseDuration + 1\<close> when \<open>secret_id_ttl\<close> is 0 or missing),
  which the values of section 4.2 do not meet; the body of the function, which would
  decide, is not at hand, and the definition is the one of section 4.2.
\<close>

definition leaseCheckWait :: "Secret \<Rightarrow> real \<Rightarrow> real" where
  "leaseCheckWait s r =
     (if Renewable s
      then uniform (real_of_int (LeaseDuration s) / 6) (real_of_int (LeaseDuration s) / 3) r
      else (case (number s ''rotation_period'', number s ''ttl'') of
              (Some p, Some t) \<Rightarrow> real_of_int (min (t + 1) p)
            | _ \<Rightarrow>
              (case number s ''secret_id_ttl'' of
                 Some t \<Rightarrow>
                   if 0 < t then real_of_int (t + 1)
                   else uniform (0.85 * real_of_int (LeaseDuration s))
                          (0.95 * real_of_int (LeaseDuration s)) r
               | None \<Rightarrow>
                   uniform (0.85 * real_of_int (LeaseDuration s))
                     (0.95 * real_of_int (LeaseDuration s)) r)))"

section \<open>Vault list query (package dependency)\<close>

text \<open>
  Modelled from the spec: \<open>VaultListQuery\<close> is declared elsewhere in the package; the
  test \<open>TestNewVaultListQuery\<close> compares its \<open>path\<close> and clears its stop channel.
\<close>

record VaultListQuery =
  vl_stopCh :: chan
  path :: string

text \<open>\<open>Trim s c\<close> strips the leading and the trailing occurrences of \<open>c\<close>.\<close>

definition Trim :: "string \<Rightarrow> char \<Rightarrow> string" where
  "Trim s c = rev (dropWhile (\<lambda>x. x = c) (rev (dropWhile (\<lambda>x. x = c) s)))"

text \<open>
  Modelled from the spec: \<open>NewVaultListQuery\<close> is defined elsewhere in the package; the
  test \<open>TestNewVaultListQuery\<close> calls it. The leading and trailing slashes of the path
  are stripped and an empty path is rejected (sections 4.1 and 6).
\<close>

definition NewVaultListQuery :: "string \<Rightarrow> error + VaultListQuery" where
  "NewVaultListQuery s =
     (let s' = Trim s (CHR ''/'') in
      if s' = [] then Inl (InvalidQuery s)
      else Inr \<lparr> vl_stopCh = Open, path = s' \<rparr>)"

text \<open>
  Modelled from the spec: the identity of the query is \<open>vault.list(path)\<close> (section 3),
  as \<open>TestVaultListQuery_String\<close> expects it.
\<close>

definition VaultListQuery_String :: "VaultListQuery \<Rightarrow> string" where
  "VaultListQuery_String d = ''vault.list('' @ path d @ '')''"

text \<open>The identity of the query a constructor call returns, if it returns one.\<close>

definition identity :: "error + VaultListQuery \<Rightarrow> string option" where
  "identity r = (case r of Inl e \<Rightarrow> None | Inr d \<Rightarrow> Some (VaultListQuery_String d))"

section \<open>Atomic write (package hcat)\<close>

text \<open>
  A file system is the set of its directories and its regular files by path; a path is
  the list of its components, and \<open>Dir\<close> is the parent of a path. \<open>MkdirAll\<close> makes the
  path and its ancestors directories.
\<close>

type_synonym path = "string list"

record regular =
  contents :: string
  mode :: nat

record filesystem =
  dirs :: "path set"
  files :: "path \<rightharpoonup> regular"

definition Dir :: "path \<Rightarrow> path" where
  "Dir p = butlast p"

definition MkdirAll :: "path \<Rightarrow> filesystem \<Rightarrow> filesystem" where
  "MkdirAll p fs = fs\<lparr>dirs := dirs fs \<union> set (prefixes p)\<rparr>"

text \<open>
  Modelled from the spec: \<open>atomicWrite\<close> is defined elsewhere in the package; the test
  \<open>TestAtomicWrite\<close> calls it with the destination, the bytes, the permission bits and
  the flag that permits the creation of parent directories. The writer renders the
  bytes to the destination path. When the parent directory does not exist it creates
  the missing parent directories if that is permitted and returns the sentinel
  \<open>errNoParentDir\<close> if it is not; when the destination exists it keeps the permission
  bits of the existing file (section 6).
\<close>

definition atomicWrite :: "path \<Rightarrow> string \<Rightarrow> nat \<Rightarrow> bool \<Rightarrow> filesystem \<Rightarrow> error + filesystem" where
  "atomicWrite p bytes perms createDestDirs fs =
     (case (if Dir p \<in> dirs fs then Inr fs
            else if createDestDirs then Inr (MkdirAll (Dir p) fs)
            else Inl ErrNoParentDir) of
        Inl e \<Rightarrow> Inl e
      | Inr fs' \<Rightarrow>
          Inr (fs'\<lparr>files := (files fs')(p \<mapsto>
                 \<lparr> contents = bytes,
                   mode = (case files fs' p of Some f \<Rightarrow> mode f | None \<Rightarrow> perms) \<rparr>)\<rparr>))"

section \<open>Store, Watcher and Resolver (package hcat)\<close>

text \<open>
  Modelled from the spec: the Store is defined elsewhere in the package. It maps a
  dependency identity to its last-known value and counts the reads of each identity
  (section 4.4). Values are strings, and the zero-form of a value is the empty string.
\<close>

type_synonym bytes = string

record Store =
  vals :: "string \<rightharpoonup> string"
  recalls :: "string \<Rightarrow> nat"

definition NewStore :: Store where
  "NewStore = \<lparr> vals = Map.empty, recalls = (\<lambda>key. 0) \<rparr>"

definition Save :: "string \<Rightarrow> string \<Rightarrow> Store \<Rightarrow> Store" where
  "Save key v st = st\<lparr>vals := (vals st)(key \<mapsto> v)\<rparr>"

definition Recall :: "string \<Rightarrow> Store \<Rightarrow> string option \<times> Store" where
  "Recall key st = (vals st key, st\<lparr>recalls := (recalls st)(key := Suc (recalls st key))\<rparr>)"

definition Delete :: "string \<Rightarrow> Store \<Rightarrow> Store" where
  "Delete key st = st\<lparr>vals := (vals st)(key := None)\<rparr>"

definition Reset :: "Store \<Rightarrow> Store" where
  "Reset st = st\<lparr>vals := Map.empty\<rparr>"

text \<open>
  Modelled from the spec: the Watcher is defined elsewhere in the package. As far as
  one template sees it, it is the reference count of the view of each dependency and
  the snapshot \<open>Mark\<close> takes of it. \<open>Track\<close> increments the count, spawning the view if
  it is absent; \<open>Sweep\<close> retires every view whose count did not increase since the
  snapshot (section 4.3).
\<close>

record Watcher =
  views :: "string \<rightharpoonup> nat"
  marked :: "string \<rightharpoonup> nat"

definition Mark :: "Watcher \<Rightarrow> Watcher" where
  "Mark w = w\<lparr>marked := views w\<rparr>"

definition Track :: "string \<Rightarrow> Watcher \<Rightarrow> Watcher" where
  "Track dep w =
     w\<lparr>views := (views w)(dep \<mapsto> (case views w dep of None \<Rightarrow> 1 | Some n \<Rightarrow> Suc n))\<rparr>"

definition Sweep :: "Watcher \<Rightarrow> Watcher" where
  "Sweep w =
     w\<lparr>views := (\<lambda>dep. case views w dep of
                          None \<Rightarrow> None
                        | Some n \<Rightarrow> (case marked w dep of
                                      None \<Rightarrow> Some n
                                    | Some m \<Rightarrow> if m < n then Some n else None))\<rparr>"

text \<open>
  Modelled from the spec: a template is a pure function of the lookup closure
  (section 1): it either emits its output or looks a dependency up and goes on with
  the value it gets.
\<close>

datatype template = Emit bytes | Lookup string "string \<Rightarrow> template"

text \<open>
  The state a pass works on: the Store, the Watcher and the bytes the template emitted
  last. A \<open>ResolveEvent\<close> is the outcome of one pass (section 3).
\<close>

record RunState =
  store :: Store
  watcher :: Watcher
  lastEmitted :: "bytes option"

record ResolveEvent =
  Contents :: bytes
  Complete :: bool
  NoChange :: bool

text \<open>
  Modelled from the spec: executing the template with the lookup closure of step 2 of
  section 4.5. \<open>look\<close> tracks the dependency, recalls its value from the Store and, if
  there is none, records the dependency in the missing set and returns the zero-form.
\<close>

primrec execute :: "template \<Rightarrow> RunState \<Rightarrow> string set \<Rightarrow> bytes \<times> string set \<times> RunState" where
  "execute (Emit b) = (\<lambda>\<sigma> missing. (b, missing, \<sigma>))"
| "execute (Lookup dep k) = (\<lambda>\<sigma> missing.
     (let w = Track dep (watcher \<sigma>);
          (v, st) = Recall dep (store \<sigma>);
          \<sigma>' = \<sigma>\<lparr>store := st, watcher := w\<rparr>
      in case v of
           Some x \<Rightarrow> execute (k x) \<sigma>' missing
         | None \<Rightarrow> execute (k []) \<sigma>' (insert dep missing)))"

text \<open>
  Modelled from the spec: \<open>Resolver.Run\<close> is defined elsewhere in the package; the
  examples call it. Steps 1 to 6 of section 4.5: mark, execute, sweep; a non-empty
  missing set gives \<open>{Complete: false}\<close>, with no contents; output equal to the last
  emitted bytes gives \<open>{Complete: true, NoChange: true}\<close>; otherwise the last emitted
  bytes are updated and the event is \<open>{Complete: true, NoChange: false, Contents: bytes}\<close>.
  A complete event carries the output as its \<open>Contents\<close> whether it reports a change or
  not: section 8 (no-change idempotence) requires identical \<open>Contents\<close> of two
  consecutive runs, and the examples read \<open>Contents\<close> of every complete event.
\<close>

definition Run :: "template \<Rightarrow> RunState \<Rightarrow> ResolveEvent \<times> RunState" where
  "Run tmpl \<sigma> =
     (let \<sigma>1 = \<sigma>\<lparr>watcher := Mark (watcher \<sigma>)\<rparr>;
          (bytes, missing, \<sigma>2) = execute tmpl \<sigma>1 {};
          \<sigma>3 = \<sigma>2\<lparr>watcher := Sweep (watcher \<sigma>2)\<rparr>
      in if missing \<noteq> {} then (\<lparr> Contents = [], Complete = False, NoChange = False \<rparr>, \<sigma>3)
         else if lastEmitted \<sigma>3 = Some bytes
         then (\<lparr> Contents = bytes, Complete = True, NoChange = True \<rparr>, \<sigma>3)
         else (\<lparr> Contents = bytes, Complete = True, NoChange = False \<rparr>,
               \<sigma>3\<lparr>lastEmitted := Some bytes\<rparr>))"

text \<open>
  The output and the missing set of a template as a function of the values in the
  Store, for the proofs.
\<close>

primrec render :: "template \<Rightarrow> (string \<rightharpoonup> string) \<Rightarrow> bytes \<times> string set" where
  "render (Emit b) = (\<lambda>m. (b, {}))"
| "render (Lookup dep k) = (\<lambda>m.
     (case m dep of
        Some x \<Rightarrow> render (k x) m
      | None \<Rightarrow> (fst (render (k []) m), insert dep (snd (render (k []) m)))))"

section \<open>Example values\<close>

text \<open>
  A regular expression result for a few query strings, the two library functions, a Consul
  client that answers with two entries, and the queries the constructor builds from
  \<open>web\<close> and \<open>web~n1\<close>.
\<close>

definition groups :: "(string \<times> string) list \<Rightarrow> string \<Rightarrow> string" where
  "groups kv k = (case map_of kv k of None \<Rightarrow> [] | Some v \<Rightarrow> v)"

definition example_re :: regexp where
  "example_re s =
     (if s = ''web'' then Some (groups [(''name'', ''web'')])
      else if s = ''web~n1'' then Some (groups [(''name'', ''web''), (''near'', ''n1'')])
      else if s = ''web|foo'' then Some (groups [(''name'', ''web''), (''filter'', ''foo'')])
      else if s = ''web|warning,any'' then Some (groups [(''name'', ''web''), (''filter'', ''warning,any'')])
      else None)"

definition example_lib :: Library where
  "example_lib =
     \<lparr> AggregatedStatus = (\<lambda>cs. case cs of [] \<Rightarrow> ''passing'' | c # _ \<Rightarrow> c_Status c),
       deepCopyAndSortTags = sort \<rparr>"

definition entry_a :: ServiceEntry where
  "entry_a =
     \<lparr> e_Node = \<lparr> n_ID = ''id-2'', n_Node = ''n2'', n_Address = ''10.0.0.2'', n_Datacenter = ''dc1'',
                  n_TaggedAddresses = [], n_Meta = [] \<rparr>,
       e_Service = \<lparr> s_ID = ''web-2'', s_Service = ''web'', s_Tags = [], s_Meta = [], s_Port = 80,
                     s_Address = [], s_Weights = (1, 1), s_Namespace = [] \<rparr>,
       e_Checks = [] \<rparr>"

definition entry_b :: ServiceEntry where
  "entry_b =
     \<lparr> e_Node = \<lparr> n_ID = ''id-1'', n_Node = ''n1'', n_Address = ''10.0.0.1'', n_Datacenter = ''dc1'',
                  n_TaggedAddresses = [], n_Meta = [] \<rparr>,
       e_Service = \<lparr> s_ID = ''web-1'', s_Service = ''web'', s_Tags = [], s_Meta = [], s_Port = 80,
                     s_Address = ''192.168.0.1'', s_Weights = (1, 1), s_Namespace = [] \<rparr>,
       e_Checks = [] \<rparr>"

definition example_clients :: Clients where
  "example_clients =
     \<lparr> Service = (\<lambda>n t p o'. Inr ([entry_a, entry_b], \<lparr> qm_LastIndex = 7, qm_LastContact = 0 \<rparr>)),
       Connect = (\<lambda>n t p o'. Inl (ClientError ''connect is not enabled'')) \<rparr>"

definition web_query :: HealthServiceQuery where
  "web_query =
     \<lparr> stopCh = Open, dc = [], filters = [''passing''], name = ''web'', near = [], tag = [],
       connect = False,
       opts = \<lparr> Datacenter = [], Near = [], WaitIndex = 0, WaitTime = 0 \<rparr> \<rparr>"

definition web_stopped :: HealthServiceQuery where
  "web_stopped = web_query\<lparr>stopCh := Closed\<rparr>"

definition near_query :: HealthServiceQuery where
  "near_query = web_query\<lparr>near := ''n1''\<rparr>"

text \<open>The secrets of \<open>TestVaultRenewDuration\<close>.\<close>

definition renewable :: Secret where
  "renewable = \<lparr> LeaseDuration = 100, Renewable = True, Data = Map.empty \<rparr>"

definition nonRenewable :: Secret where
  "nonRenewable = \<lparr> LeaseDuration = 100, Renewable = False, Data = Map.empty \<rparr>"

definition nonRenewableRotated :: "int \<Rightarrow> int \<Rightarrow> Secret" where
  "nonRenewableRotated p t =
     \<lparr> LeaseDuration = 100, Renewable = False,
       Data = [''rotation_period'' \<mapsto> Number p, ''ttl'' \<mapsto> Number t] \<rparr>"


text \<open>The file system of \<open>TestAtomicWrite\<close> after the output directory is removed.\<close>

definition outDir_removed :: filesystem where
  "outDir_removed = \<lparr> dirs = {[], [''tmp'']}, files = Map.empty \<rparr>"

text \<open>A template that renders one key, and the state of a first pass over a Store.\<close>

definition kv_template :: template where
  "kv_template = Lookup ''kv(a)'' (\<lambda>v. Emit (''a='' @ v))"

definition fresh :: "Store \<Rightarrow> RunState" where
  "fresh st = \<lparr> store = st, watcher = \<lparr> views = Map.empty, marked = Map.empty \<rparr>,
               lastEmitted = None \<rparr>"

section \<open>Properties\<close>

declare trim_runes.simps [simp del]

subsection \<open>The sort\<close>

text \<open>The insertion sort of a block.\<close>

lemma insertionInner_append:
  "insertionInner lt (front @ pre @ x # post) (length front) (length front + length pre)
   = front @ rev (ins_back lt x (rev pre)) @ post"
proof (induction pre arbitrary: post rule: rev_induct)
  case Nil
  show ?case by (cases "length front") auto
next
  case (snoc y ys)
  let ?j = "length front + length ys"
  let ?xs = "front @ (ys @ [y]) @ x # post"
  have a: "?xs ! Suc ?j = x" by (simp add: nth_append)
  have b: "?xs ! ?j = y" by (simp add: nth_append)
  have sw: "Swap ?xs (Suc ?j) ?j = front @ ys @ x # (y # post)"
    unfolding Swap_def a b by (simp add: list_update_append)
  show ?case
  proof (cases "lt x y")
    case True
    have "insertionInner lt ?xs (length front) (Suc ?j)
          = insertionInner lt (front @ ys @ x # (y # post)) (length front) ?j"
      using True a b sw by simp
    also have "\<dots> = front @ rev (ins_back lt x (rev ys)) @ (y # post)"
      by (rule snoc.IH)
    finally show ?thesis using True by simp
  next
    case False
    then show ?thesis using a b by simp
  qed
qed

lemma length_ins_back: "length (ins_back lt x ys) = Suc (length ys)"
  by (induction ys) auto

lemma insertionOuter_append:
  "insertionOuter lt (front @ pre @ todo @ post) (length front)
     (length front + length pre) (length front + length pre + length todo)
   = front @ rev (foldl (\<lambda>acc x. ins_back lt x acc) (rev pre) todo) @ post"
proof (induction todo arbitrary: pre)
  case Nil
  show ?case by (simp add: insertionOuter.simps)
next
  case (Cons x todo)
  let ?pre' = "rev (ins_back lt x (rev pre))"
  have len: "length ?pre' = Suc (length pre)" by (simp add: length_ins_back)
  have "insertionOuter lt (front @ pre @ (x # todo) @ post) (length front)
          (length front + length pre) (length front + length pre + length (x # todo))
        = insertionOuter lt (insertionInner lt (front @ pre @ x # (todo @ post)) (length front)
             (length front + length pre)) (length front) (Suc (length front + length pre))
             (length front + length pre + length (x # todo))"
    by (subst insertionOuter.simps) simp
  also have "\<dots> = insertionOuter lt (front @ ?pre' @ todo @ post) (length front)
             (length front + length ?pre') (length front + length ?pre' + length todo)"
    using len by (simp add: insertionInner_append length_ins_back)
  also have "\<dots> = front @ rev (foldl (\<lambda>acc x. ins_back lt x acc) (rev ?pre') todo) @ post"
    by (rule Cons.IH)
  finally show ?case by simp
qed

lemma mset_ins_back: "mset (ins_back lt x ys) = add_mset x (mset ys)"
  by (induction ys) auto

lemma set_ins_back: "set (ins_back lt x ys) = insert x (set ys)"
  by (induction ys) auto

lemma sorted_ins_back:
  assumes tot: "\<And>a b. lt a b \<or> lt b a"
    and tr: "\<And>a b c. lt a b \<Longrightarrow> lt b c \<Longrightarrow> lt a c"
  shows "sorted_wrt (\<lambda>a b. lt b a) ys \<Longrightarrow> sorted_wrt (\<lambda>a b. lt b a) (ins_back lt x ys)"
proof (induction ys)
  case Nil
  then show ?case by simp
next
  case (Cons y ys)
  show ?case
  proof (cases "lt x y")
    case True
    then show ?thesis using Cons by (auto simp: set_ins_back)
  next
    case False
    then have "lt y x" using tot by blast
    then show ?thesis using Cons False by (auto intro: tr)
  qed
qed

lemma mset_foldl_ins_back:
  "mset (foldl (\<lambda>acc x. ins_back lt x acc) acc todo) = mset acc + mset todo"
  by (induction todo arbitrary: acc) (auto simp: mset_ins_back)

lemma sorted_foldl_ins_back:
  assumes tot: "\<And>a b. lt a b \<or> lt b a"
    and tr: "\<And>a b c. lt a b \<Longrightarrow> lt b c \<Longrightarrow> lt a c"
  shows "sorted_wrt (\<lambda>a b. lt b a) acc
         \<Longrightarrow> sorted_wrt (\<lambda>a b. lt b a) (foldl (\<lambda>acc x. ins_back lt x acc) acc todo)"
proof (induction todo arbitrary: acc)
  case Nil
  then show ?case by simp
next
  case (Cons x todo)
  have "sorted_wrt (\<lambda>a b. lt b a) (ins_back lt x acc)"
    using sorted_ins_back [of lt acc x] tot tr Cons.prems by blast
  then show ?case using Cons.IH by simp
qed

lemma insertionSort_block:
  assumes tot: "\<And>x y. lt x y \<or> lt y x"
    and tr: "\<And>x y z. lt x y \<Longrightarrow> lt y z \<Longrightarrow> lt x z"
  shows "length p = a \<Longrightarrow> b = a + length blk \<Longrightarrow>
         \<exists>blk'. insertionSort lt (p @ blk @ s) a b = p @ blk' @ s \<and> sorted_wrt lt blk'
                \<and> mset blk' = mset blk"
proof -
  assume p: "length p = a" and b: "b = a + length blk"
  show ?thesis
  proof (cases blk)
    case Nil
    have "insertionOuter lt (p @ s) a (a + 1) a = p @ s"
      by (subst insertionOuter.simps) simp
    then show ?thesis using Nil b by (simp add: insertionSort_def)
  next
    case (Cons x todo)
    let ?blk' = "rev (foldl (\<lambda>acc x. ins_back lt x acc) [x] todo)"
    have "insertionOuter lt (p @ [x] @ todo @ s) (length p)
            (length p + length [x]) (length p + length [x] + length todo)
          = p @ rev (foldl (\<lambda>acc x. ins_back lt x acc) (rev [x]) todo) @ s"
      by (rule insertionOuter_append)
    then have "insertionSort lt (p @ blk @ s) a b = p @ ?blk' @ s"
      using p b Cons by (simp add: insertionSort_def)
    moreover have "sorted_wrt (\<lambda>a b. lt b a) (foldl (\<lambda>acc x. ins_back lt x acc) [x] todo)"
    proof (rule sorted_foldl_ins_back [where lt = lt])
      show "lt a b \<or> lt b a" for a b by (rule tot)
      show "lt a b \<Longrightarrow> lt b c \<Longrightarrow> lt a c" for a b c by (rule tr)
      show "sorted_wrt (\<lambda>a b. lt b a) [x]" by simp
    qed
    then have "sorted_wrt lt ?blk'"
      by (simp add: sorted_wrt_rev)
    moreover have "mset ?blk' = mset blk"
      using Cons by (simp add: mset_foldl_ins_back)
    ultimately show ?thesis by blast
  qed
qed

text \<open>Swapping ranges and rotating blocks.\<close>

lemma Swap_append:
  "Swap (u @ x # v @ y # w) (length u) (Suc (length u + length v)) = u @ y # v @ x # w"
  by (simp add: Swap_def nth_append list_update_append)

lemma Swap_append':
  "i = length u \<Longrightarrow> j = Suc (length u + length v) \<Longrightarrow>
   Swap (u @ x # v @ y # w) i j = u @ y # v @ x # w"
  using Swap_append by metis

lemma Swap_sym: "i \<noteq> j \<Longrightarrow> Swap xs i j = Swap xs j i"
  unfolding Swap_def by (rule list_update_swap)

lemma swapRange_append:
  "length p = a \<Longrightarrow> length A = n \<Longrightarrow> length B = n \<Longrightarrow> b = a + n + length q \<Longrightarrow>
   swapRange (p @ A @ q @ B @ s) a b n = p @ B @ q @ A @ s"
proof (induction n arbitrary: A B q s)
  case 0
  then show ?case by (simp add: swapRange_def)
next
  case (Suc n)
  from Suc.prems obtain A' x where A: "A = A' @ [x]" "length A' = n"
    by (metis length_Suc_conv_rev)
  from Suc.prems obtain B' y where B: "B = B' @ [y]" "length B' = n"
    by (metis length_Suc_conv_rev)
  have "swapRange (p @ A @ q @ B @ s) a b (Suc n)
        = Swap (swapRange (p @ A' @ (x # q) @ B' @ (y # s)) a b n) (a + n) (b + n)"
    by (simp add: swapRange_def A B)
  also have "swapRange (p @ A' @ (x # q) @ B' @ (y # s)) a b n = p @ B' @ (x # q) @ A' @ (y # s)"
    using Suc.prems A B by (intro Suc.IH) auto
  also have "Swap (p @ B' @ (x # q) @ A' @ (y # s)) (a + n) (b + n)
             = (p @ B') @ y # (q @ A') @ x # s"
    using Suc.prems A B Swap_append' [of "a + n" "p @ B'" "b + n" "q @ A'" x y s] by simp
  finally show ?case by (simp add: A B)
qed

lemma rotateLoop_append:
  "length p = m - i \<Longrightarrow> i \<le> m \<Longrightarrow> length U = i \<Longrightarrow> length V = j \<Longrightarrow> 0 < i \<Longrightarrow> 0 < j \<Longrightarrow>
   rotateLoop (p @ U @ V @ s) m i j = p @ V @ U @ s"
proof (induction "p @ U @ V @ s" m i j arbitrary: p U V s rule: rotateLoop.induct)
  case (1 m i j)
  show ?case
  proof (cases "i = j")
    case True
    have "swapRange (p @ U @ [] @ V @ s) (m - i) m i = p @ V @ [] @ U @ s"
      using 1 True by (intro swapRange_append) auto
    then show ?thesis using True by (subst rotateLoop.simps) simp
  next
    case False
    show ?thesis
    proof (cases "i > j")
      case True
      define U1 where "U1 = take j U"
      define U2 where "U2 = drop j U"
      have U: "U = U1 @ U2" "length U1 = j" "length U2 = i - j"
        using True 1(5) by (auto simp: U1_def U2_def)
      have sw: "swapRange (p @ U1 @ U2 @ V @ s) (m - i) m j = p @ V @ U2 @ U1 @ s"
        using 1 True U by (intro swapRange_append) auto
      have "rotateLoop (p @ U @ V @ s) m i j
            = rotateLoop (swapRange (p @ U @ V @ s) (m - i) m j) m (i - j) j"
        using True False 1 by (subst rotateLoop.simps) simp
      also have "\<dots> = rotateLoop ((p @ V) @ U2 @ U1 @ s) m (i - j) j"
        using sw U by simp
      also have "\<dots> = (p @ V) @ U1 @ U2 @ s"
        using 1(1) [of "p @ V" U2 U1 s] True False 1(3-) U sw by auto
      finally show ?thesis using U by simp
    next
      case F2: False
      with False have lt: "i < j" by simp
      define V1 where "V1 = take (j - i) V"
      define V2 where "V2 = drop (j - i) V"
      have V: "V = V1 @ V2" "length V1 = j - i" "length V2 = i"
        using lt 1(6) by (auto simp: V1_def V2_def)
      have sw: "swapRange (p @ U @ V1 @ V2 @ s) (m - i) (m + j - i) i = p @ V2 @ V1 @ U @ s"
        using 1 lt V by (intro swapRange_append) auto
      have "rotateLoop (p @ U @ V @ s) m i j
            = rotateLoop (swapRange (p @ U @ V @ s) (m - i) (m + j - i) i) m i (j - i)"
        using lt False 1 by (subst rotateLoop.simps) simp
      also have "\<dots> = rotateLoop (p @ V2 @ V1 @ (U @ s)) m i (j - i)"
        using sw V by simp
      also have "\<dots> = p @ V1 @ V2 @ (U @ s)"
        using 1(2) [of p V2 V1 "U @ s"] lt False 1(3-) V sw by auto
      finally show ?thesis using V by simp
    qed
  qed
qed

lemma rotate_seg_append:
  "length p = a \<Longrightarrow> m = a + length U \<Longrightarrow> b = m + length V \<Longrightarrow> U \<noteq> [] \<Longrightarrow> V \<noteq> [] \<Longrightarrow>
   rotate_seg (p @ U @ V @ s) a m b = p @ V @ U @ s"
  unfolding rotate_seg_def by (rule rotateLoop_append) auto

lemma shift_right:
  "length p = a \<Longrightarrow>
   fold (\<lambda>k xs. Swap xs k (k + 1)) [a..<a + length Y] (p @ x # Y @ s) = p @ Y @ x # s"
proof (induction Y arbitrary: s rule: rev_induct)
  case Nil
  show ?case by simp
next
  case (snoc y Y)
  have "fold (\<lambda>k xs. Swap xs k (k + 1)) [a..<a + length (Y @ [y])] (p @ x # (Y @ [y]) @ s)
        = Swap (fold (\<lambda>k xs. Swap xs k (k + 1)) [a..<a + length Y] (p @ x # Y @ (y # s)))
            (a + length Y) (a + length Y + 1)"
    by simp
  also have "\<dots> = Swap ((p @ Y) @ x # [] @ y # s) (a + length Y) (a + length Y + 1)"
    using snoc by simp
  also have "\<dots> = (p @ Y) @ y # [] @ x # s"
    using snoc.prems by (intro Swap_append') auto
  finally show ?case by simp
qed

lemma shift_left:
  "length p = i \<Longrightarrow> m = i + length Y \<Longrightarrow>
   fold (\<lambda>k xs. Swap xs k (k - 1)) (rev [i + 1..<m + 1]) (p @ Y @ x # s) = p @ x # Y @ s"
proof (induction Y arbitrary: s m rule: rev_induct)
  case Nil
  then show ?case by simp
next
  case (snoc y Y)
  have m: "m = Suc (i + length Y)" using snoc.prems by simp
  have "rev [i + 1..<m + 1] = m # rev [i + 1..<(i + length Y) + 1]"
    using m by simp
  then have "fold (\<lambda>k xs. Swap xs k (k - 1)) (rev [i + 1..<m + 1]) (p @ (Y @ [y]) @ x # s)
        = fold (\<lambda>k xs. Swap xs k (k - 1)) (rev [i + 1..<(i + length Y) + 1])
            (Swap ((p @ Y) @ y # [] @ x # s) m (m - 1))"
    by simp
  also have "Swap ((p @ Y) @ y # [] @ x # s) m (m - 1) = Swap ((p @ Y) @ y # [] @ x # s) (m - 1) m"
    using m by (intro Swap_sym) simp
  also have "\<dots> = (p @ Y) @ x # [] @ y # s"
    using snoc.prems m by (intro Swap_append') auto
  also have "fold (\<lambda>k xs. Swap xs k (k - 1)) (rev [i + 1..<(i + length Y) + 1])
               ((p @ Y) @ x # [] @ y # s) = p @ x # Y @ (y # s)"
    using snoc.IH [of "i + length Y" "y # s"] snoc.prems by simp
  finally show ?case by simp
qed

text \<open>
  The binary search ends between a place where the test holds and a place where it
  does not.
\<close>

lemma search_bounds:
  "i \<le> j \<Longrightarrow>
   i \<le> search P i j \<and> search P i j \<le> j
   \<and> (i < search P i j \<longrightarrow> P (search P i j - 1))
   \<and> (search P i j < j \<longrightarrow> \<not> P (search P i j))"
proof (induction P i j rule: search.induct)
  case (1 P i j)
  show ?case
  proof (cases "i < j")
    case False
    with 1(3) show ?thesis by (subst (1 2 3 4 5 6) search.simps) simp
  next
    case True
    let ?h = "(i + j) div 2"
    from True have h: "i \<le> ?h" "?h < j" by auto
    show ?thesis
    proof (cases "P ?h")
      case P: True
      have eq: "search P i j = search P (?h + 1) j"
        using True P by (subst search.simps) (simp add: Let_def)
      from 1(1) [OF True refl P] h
      have "?h + 1 \<le> search P (?h + 1) j \<and> search P (?h + 1) j \<le> j
            \<and> (?h + 1 < search P (?h + 1) j \<longrightarrow> P (search P (?h + 1) j - 1))
            \<and> (search P (?h + 1) j < j \<longrightarrow> \<not> P (search P (?h + 1) j))"
        by simp
      then show ?thesis unfolding eq using h P
        by (cases "?h + 1 = search P (?h + 1) j") auto
    next
      case nP: False
      have eq: "search P i j = search P i ?h"
        using True nP by (subst search.simps) (simp add: Let_def)
      from 1(2) [OF True refl nP] h
      have "i \<le> search P i ?h \<and> search P i ?h \<le> ?h
            \<and> (i < search P i ?h \<longrightarrow> P (search P i ?h - 1))
            \<and> (search P i ?h < ?h \<longrightarrow> \<not> P (search P i ?h))"
        by simp
      then show ?thesis unfolding eq using h nP
        by (cases "search P i ?h = ?h") auto
    qed
  qed
qed

text \<open>
  Sorted lists under an order \<open>lt\<close> that is total and transitive, as \<open>Less\<close> is.
\<close>

lemma sorted_nth_le:
  assumes tot: "\<And>x y. lt x y \<or> lt y x"
  shows "sorted_wrt lt xs \<Longrightarrow> i \<le> j \<Longrightarrow> j < length xs \<Longrightarrow> lt (xs ! i) (xs ! j)"
proof -
  assume s: "sorted_wrt lt xs" and ij: "i \<le> j" "j < length xs"
  show ?thesis
  proof (cases "i = j")
    case True
    then show ?thesis using tot by blast
  next
    case False
    with ij have "i < j" by simp
    with s ij show ?thesis by (simp add: sorted_wrt_nth_less)
  qed
qed

lemma insert_sorted:
  assumes tot: "\<And>x y. lt x y \<or> lt y x"
    and tr: "\<And>x y z. lt x y \<Longrightarrow> lt y z \<Longrightarrow> lt x z"
    and s: "sorted_wrt lt R" and n: "n \<le> length R"
    and lo: "0 < n \<longrightarrow> lt (R ! (n - 1)) x"
    and hi: "n < length R \<longrightarrow> lt x (R ! n)"
  shows "sorted_wrt lt (take n R @ x # drop n R)"
proof -
  have 1: "sorted_wrt lt (take n R)" using s by (rule sorted_wrt_take)
  have 2: "sorted_wrt lt (drop n R)" using s by (rule sorted_wrt_drop)
  have 3: "lt y x" if "y \<in> set (take n R)" for y
  proof -
    from that obtain k where "k < length (take n R)" "y = take n R ! k"
      unfolding in_set_conv_nth by blast
    then have k: "k < n" "k < length R" "y = R ! k"
      using n by auto
    then have "lt (R ! k) (R ! (n - 1))"
      using n by (intro sorted_nth_le [OF tot s]) auto
    moreover from k lo have "lt (R ! (n - 1)) x" by auto
    ultimately show ?thesis using k tr by blast
  qed
  have 4: "lt x z" if "z \<in> set (drop n R)" for z
  proof -
    from that obtain k where "k < length (drop n R)" "z = drop n R ! k"
      unfolding in_set_conv_nth by blast
    then have k: "n + k < length R" "z = R ! (n + k)"
      using n by auto
    then have "lt (R ! n) (R ! (n + k))"
      by (intro sorted_nth_le [OF tot s]) auto
    moreover from k hi have "lt x (R ! n)" by auto
    ultimately show ?thesis using k tr by blast
  qed
  have 5: "lt y z" if "y \<in> set (take n R)" "z \<in> set (drop n R)" for y z
    using 3 [OF that(1)] 4 [OF that(2)] tr by blast
  show ?thesis
    using 1 2 3 4 5 by (auto simp: sorted_wrt_append)
qed

lemma sorted_le_last:
  assumes tot: "\<And>x y. lt x y \<or> lt y x"
  shows "sorted_wrt lt A \<Longrightarrow> x \<in> set A \<Longrightarrow> lt x (last A)"
proof -
  assume s: "sorted_wrt lt A" and x: "x \<in> set A"
  then obtain k where k: "k < length A" "x = A ! k" by (auto simp: in_set_conv_nth)
  then have "lt (A ! k) (A ! (length A - 1))"
    by (intro sorted_nth_le [OF tot s]) auto
  moreover have "A \<noteq> []" using x by auto
  ultimately show ?thesis using k by (simp add: last_conv_nth)
qed

lemma sorted_hd_le:
  assumes tot: "\<And>x y. lt x y \<or> lt y x"
  shows "sorted_wrt lt A \<Longrightarrow> x \<in> set A \<Longrightarrow> lt (hd A) x"
proof -
  assume s: "sorted_wrt lt A" and x: "x \<in> set A"
  then obtain k where k: "k < length A" "x = A ! k" by (auto simp: in_set_conv_nth)
  then have "lt (A ! 0) (A ! k)"
    by (intro sorted_nth_le [OF tot s]) auto
  moreover have "A \<noteq> []" using x by auto
  ultimately show ?thesis using k by (simp add: hd_conv_nth)
qed

lemma sorted_two_halves:
  assumes tot: "\<And>x y. lt x y \<or> lt y x"
    and tr: "\<And>x y z. lt x y \<Longrightarrow> lt y z \<Longrightarrow> lt x z"
    and sA: "sorted_wrt lt (A1 @ A2)" and sB: "sorted_wrt lt (B1 @ B2)"
    and ab: "A1 \<noteq> [] \<and> B2 \<noteq> [] \<longrightarrow> lt (last A1) (hd B2)"
    and ba: "B1 \<noteq> [] \<and> A2 \<noteq> [] \<longrightarrow> lt (last B1) (hd A2)"
    and s1: "sorted_wrt lt M1" and s2: "sorted_wrt lt M2"
    and m1: "set M1 = set A1 \<union> set B1" and m2: "set M2 = set A2 \<union> set B2"
  shows "sorted_wrt lt (M1 @ M2)"
proof -
  have sA1: "sorted_wrt lt A1" and sA2: "sorted_wrt lt A2"
    and sB1: "sorted_wrt lt B1" and sB2: "sorted_wrt lt B2"
    using sA sB by (auto simp: sorted_wrt_append)
  have "lt x y" if x: "x \<in> set M1" and y: "y \<in> set M2" for x y
  proof -
    consider "x \<in> set A1" "y \<in> set A2" | "x \<in> set B1" "y \<in> set B2"
      | "x \<in> set A1" "y \<in> set B2" | "x \<in> set B1" "y \<in> set A2"
      using x y m1 m2 by auto
    then show ?thesis
    proof cases
      case 1
      then show ?thesis using sA by (auto simp: sorted_wrt_append)
    next
      case 2
      then show ?thesis using sB by (auto simp: sorted_wrt_append)
    next
      case 3
      then have ne: "A1 \<noteq> []" "B2 \<noteq> []" by auto
      have "lt x (last A1)" using sorted_le_last [OF tot sA1] 3 by blast
      moreover have "lt (last A1) (hd B2)" using ab ne by blast
      moreover have "lt (hd B2) y" using sorted_hd_le [OF tot sB2] 3 by blast
      ultimately show ?thesis using tr by blast
    next
      case 4
      then have ne: "B1 \<noteq> []" "A2 \<noteq> []" by auto
      have "lt x (last B1)" using sorted_le_last [OF tot sB1] 4 by blast
      moreover have "lt (last B1) (hd A2)" using ba ne by blast
      moreover have "lt (hd A2) y" using sorted_hd_le [OF tot sA2] 4 by blast
      ultimately show ?thesis using tr by blast
    qed
  qed
  then show ?thesis using s1 s2 by (auto simp: sorted_wrt_append)
qed

lemma take_drop_app: "take n R @ drop n R @ s = R @ s"
  by (simp flip: append_assoc)

lemma mset_insert_at: "mset (take n R @ x # drop n R) = add_mset x (mset R)"
proof -
  have "mset (take n R @ x # drop n R) = add_mset x (mset (take n R) + mset (drop n R))"
    by simp
  also have "mset (take n R) + mset (drop n R) = mset (take n R @ drop n R)"
    by (rule mset_append [symmetric])
  also have "take n R @ drop n R = R"
    by (rule append_take_drop_id)
  finally show ?thesis .
qed

lemma last_take_nth: "0 < k \<Longrightarrow> k \<le> length L \<Longrightarrow> last (take k L) = L ! (k - 1)"
proof -
  assume a: "0 < k" "k \<le> length L"
  then have "take k L \<noteq> []" by auto
  then have "last (take k L) = take k L ! (length (take k L) - 1)" by (rule last_conv_nth)
  also have "\<dots> = L ! (k - 1)" using a by simp
  finally show ?thesis .
qed

lemma nth_L: "length p = a \<Longrightarrow> i < length L \<Longrightarrow> (p @ L @ rest) ! (a + i) = L ! i"
  by (simp add: nth_append)

lemma nth_R:
  "length p = a \<Longrightarrow> i < length R \<Longrightarrow> (p @ L @ R @ rest) ! (a + length L + i) = R ! i"
  by (simp add: nth_append)

text \<open>\<open>symMerge\<close> merges two sorted neighbours into a sorted block of the same elements.\<close>

lemma symMerge_left_single:
  assumes tot: "\<And>x y. lt x y \<or> lt y x"
    and tr: "\<And>x y z. lt x y \<Longrightarrow> lt y z \<Longrightarrow> lt x z"
    and p: "length p = a" and m: "m = a + 1" and b: "b = m + length R"
    and sR: "sorted_wrt lt R"
  shows "\<exists>M. symMerge lt (p @ [x] @ R @ s) a m b = p @ M @ s \<and> sorted_wrt lt M
             \<and> mset M = mset [x] + mset R"
proof -
  let ?xs = "p @ [x] @ R @ s"
  let ?P = "\<lambda>h. lt (?xs ! h) (?xs ! a)"
  define i where "i = search ?P m b"
  define n where "n = i - m"
  have mb: "m \<le> b" using b by simp
  from search_bounds [OF mb, of ?P] have
    i: "m \<le> i" "i \<le> b" and lo: "m < i \<longrightarrow> ?P (i - 1)" and hi: "i < b \<longrightarrow> \<not> ?P i"
    unfolding i_def by auto
  have n: "n \<le> length R" "i = m + n" "i - 1 = a + n" using i b m by (auto simp: n_def)
  have xa: "?xs ! a = x" using p by (simp add: nth_append)
  have R: "?xs ! (m + k) = R ! k" if "k < length R" for k
    using nth_R [OF p that, of "[x]" s] m by simp
  have lo': "0 < n \<longrightarrow> lt (R ! (n - 1)) x"
  proof
    assume "0 < n"
    then have "m < i" "i - 1 = m + (n - 1)" "n - 1 < length R" using n by auto
    with lo R [of "n - 1"] xa show "lt (R ! (n - 1)) x" by simp
  qed
  have hi': "n < length R \<longrightarrow> lt x (R ! n)"
  proof
    assume "n < length R"
    then have "i < b" using n b by simp
    with hi have "\<not> lt (?xs ! i) x" using xa by simp
    then have "\<not> lt (R ! n) x" using R [OF \<open>n < length R\<close>] n by simp
    then show "lt x (R ! n)" using tot by blast
  qed
  have "symMerge lt ?xs a m b = fold (\<lambda>k xs. Swap xs k (k + 1)) [a..<i - 1] ?xs"
    using m by (subst symMerge.simps) (simp add: i_def Let_def)
  also have "\<dots> = fold (\<lambda>k xs. Swap xs k (k + 1)) [a..<a + length (take n R)]
                     (p @ x # take n R @ (drop n R @ s))"
    using n by (simp add: take_drop_app)
  also have "\<dots> = p @ take n R @ x # (drop n R @ s)"
    using p by (rule shift_right)
  finally have "symMerge lt ?xs a m b = p @ (take n R @ x # drop n R) @ s" by simp
  moreover have "sorted_wrt lt (take n R @ x # drop n R)"
    using tot tr sR n(1) lo' hi' by (rule insert_sorted)
  moreover have "mset (take n R @ x # drop n R) = mset [x] + mset R"
    unfolding mset_insert_at by simp
  ultimately show ?thesis by blast
qed

lemma symMerge_right_single:
  assumes tot: "\<And>x y. lt x y \<or> lt y x"
    and tr: "\<And>x y z. lt x y \<Longrightarrow> lt y z \<Longrightarrow> lt x z"
    and p: "length p = a" and m: "m = a + length L" and b: "b = m + 1"
    and l: "length L \<noteq> 1"
    and sL: "sorted_wrt lt L"
  shows "\<exists>M. symMerge lt (p @ L @ [y] @ s) a m b = p @ M @ s \<and> sorted_wrt lt M
             \<and> mset M = mset L + mset [y]"
proof -
  let ?xs = "p @ L @ [y] @ s"
  let ?P = "\<lambda>h. \<not> lt (?xs ! m) (?xs ! h)"
  define i where "i = search ?P a m"
  define n where "n = i - a"
  have am: "a \<le> m" using m by simp
  from search_bounds [OF am, of ?P] have
    i: "a \<le> i" "i \<le> m" and lo: "a < i \<longrightarrow> ?P (i - 1)" and hi: "i < m \<longrightarrow> \<not> ?P i"
    unfolding i_def by auto
  have n: "n \<le> length L" "i = a + n" using i m by (auto simp: n_def)
  have xm: "?xs ! m = y" using p m by (simp add: nth_append)
  have L: "?xs ! (a + k) = L ! k" if "k < length L" for k
    using nth_L [OF p that] by simp
  have lo': "0 < n \<longrightarrow> lt (L ! (n - 1)) y"
  proof
    assume "0 < n"
    then have "a < i" "i - 1 = a + (n - 1)" "n - 1 < length L" using n by auto
    with lo L [of "n - 1"] xm have "\<not> lt y (L ! (n - 1))" by simp
    then show "lt (L ! (n - 1)) y" using tot by blast
  qed
  have hi': "n < length L \<longrightarrow> lt y (L ! n)"
  proof
    assume "n < length L"
    then have "i < m" using n m by simp
    with hi have "lt y (?xs ! i)" using xm by simp
    then show "lt y (L ! n)" using L [OF \<open>n < length L\<close>] n by simp
  qed
  have "symMerge lt ?xs a m b = fold (\<lambda>k xs. Swap xs k (k - 1)) (rev [i + 1..<m + 1]) ?xs"
    using m b l by (subst symMerge.simps) (simp add: i_def Let_def)
  also have "\<dots> = fold (\<lambda>k xs. Swap xs k (k - 1)) (rev [i + 1..<m + 1])
                     ((p @ take n L) @ drop n L @ y # s)"
    by (simp add: take_drop_app)
  also have "\<dots> = (p @ take n L) @ y # drop n L @ s"
    using p n m by (intro shift_left) auto
  finally have "symMerge lt ?xs a m b = p @ (take n L @ y # drop n L) @ s" by simp
  moreover have "sorted_wrt lt (take n L @ y # drop n L)"
    using tot tr sL n(1) lo' hi' by (rule insert_sorted)
  moreover have "mset (take n L @ y # drop n L) = mset L + mset [y]"
    unfolding mset_insert_at by simp
  ultimately show ?thesis by blast
qed

lemma symMerge_correct:
  assumes tot: "\<And>x y. lt x y \<or> lt y x"
    and tr: "\<And>x y z. lt x y \<Longrightarrow> lt y z \<Longrightarrow> lt x z"
  shows "length p = a \<Longrightarrow> m = a + length L \<Longrightarrow> b = m + length R \<Longrightarrow> L \<noteq> [] \<Longrightarrow> R \<noteq> [] \<Longrightarrow>
         sorted_wrt lt L \<Longrightarrow> sorted_wrt lt R \<Longrightarrow>
         \<exists>M. symMerge lt (p @ L @ R @ s) a m b = p @ M @ s \<and> sorted_wrt lt M
             \<and> mset M = mset L + mset R"
proof (induction "length L + length R" arbitrary: p a m b L R s rule: less_induct)
  case less
  note p = \<open>length p = a\<close> and m = \<open>m = a + length L\<close> and b = \<open>b = m + length R\<close>
  note sL = \<open>sorted_wrt lt L\<close> and sR = \<open>sorted_wrt lt R\<close>
  define l where "l = length L"
  define r where "r = length R"
  have lr: "0 < l" "0 < r" using less.prems by (auto simp: l_def r_def)
  show ?case
  proof (cases "l = 1")
    case True
    then obtain x where x: "L = [x]" by (auto simp: l_def length_Suc_conv)
    have "\<exists>M. symMerge lt (p @ [x] @ R @ s) a m b = p @ M @ s \<and> sorted_wrt lt M
             \<and> mset M = mset [x] + mset R"
    proof -
      have m1: "m = a + 1" using m x by simp
      show ?thesis by (rule symMerge_left_single [OF tot tr p m1 b sR])
    qed
    then show ?thesis using x by simp
  next
    case l1: False
    show ?thesis
    proof (cases "r = 1")
      case True
      then obtain y where y: "R = [y]" by (auto simp: r_def length_Suc_conv)
      have "\<exists>M. symMerge lt (p @ L @ [y] @ s) a m b = p @ M @ s \<and> sorted_wrt lt M
             \<and> mset M = mset L + mset [y]"
      proof -
        have b1: "b = m + 1" using b y by simp
        have l1': "length L \<noteq> 1" using l1 by (simp add: l_def)
        show ?thesis by (rule symMerge_right_single [OF tot tr p m b1 l1' sL])
      qed
      then show ?thesis using y by simp
    next
      case r1: False
      let ?xs = "p @ L @ R @ s"
      define h where "h = (l + r) div 2"
      define mid where "mid = (a + b) div 2"
      define n where "n = mid + m"
      define start0 where "start0 = (if m > mid then n - b else a)"
      define r0 where "r0 = (if m > mid then mid else m)"
      define pp where "pp = n - 1"
      define start where "start = search (\<lambda>c. \<not> lt (?xs ! (pp - c)) (?xs ! c)) start0 r0"
      define e where "e = n - start"
      define xs1 where "xs1 = (if start < m \<and> m < e then rotate_seg ?xs start m e else ?xs)"
      define xs2 where
        "xs2 = (if a < start \<and> start < mid then symMerge lt xs1 a start mid else xs1)"
      have unfold: "symMerge lt ?xs a m b = (if mid < e \<and> e < b then symMerge lt xs2 mid e b else xs2)"
      proof -
        have c: "m - a \<noteq> 1" "b - m \<noteq> 1" using m b l1 r1 by (auto simp: l_def r_def)
        show ?thesis
          unfolding xs2_def xs1_def e_def start_def pp_def r0_def start0_def n_def mid_def
          by (simp only: symMerge.simps [of lt "p @ L @ R @ s" a m b] Let_def c if_False)
      qed
      \<comment> \<open>arithmetic of the split\<close>
      define k0 where "k0 = (if l > h then h - r else 0)"
      define kr where "kr = (if l > h then h else l)"
      have h: "0 < h" "h < l + r" using lr l1 r1 by (auto simp: h_def)
      have hl: "l > h \<Longrightarrow> r \<le> h" and hr: "\<not> l > h \<Longrightarrow> h \<le> r"
        by (auto simp: h_def)
      have mid: "mid = a + h" using m b by (simp add: mid_def h_def l_def r_def)
      have n: "n = a + h + a + l" using mid m by (simp add: n_def l_def)
      have mm: "m > mid \<longleftrightarrow> l > h" using mid m by (simp add: l_def)
      have start0: "start0 = a + k0"
        using hl n b m mm by (auto simp: start0_def k0_def l_def r_def)
      have r0: "r0 = a + kr" using mid m mm by (auto simp: r0_def kr_def l_def)
      have k0r: "k0 \<le> kr" "kr \<le> l" "kr \<le> h" "h - k0 \<le> r"
        using hl hr by (auto simp: k0_def kr_def)
      have "start0 \<le> r0" using start0 r0 k0r by simp
      from search_bounds [OF this, of "\<lambda>c. \<not> lt (?xs ! (pp - c)) (?xs ! c)"]
      have sb: "start0 \<le> start" "start \<le> r0"
        and lo: "start0 < start \<longrightarrow> \<not> lt (?xs ! (pp - (start - 1))) (?xs ! (start - 1))"
        and hi: "start < r0 \<longrightarrow> lt (?xs ! (pp - start)) (?xs ! start)"
        unfolding start_def by auto
      define k where "k = start - a"
      define q where "q = h - k"
      have k: "start = a + k" "k0 \<le> k" "k \<le> kr" "k \<le> l" "k \<le> h"
        using sb start0 r0 k0r by (auto simp: k_def)
      have q: "k + q = h" "q \<le> r" using k k0r by (auto simp: q_def)
      have e: "e = m + q" using n k q m by (simp add: e_def l_def)
      have pp: "pp = m + a + h - 1" using n m by (simp add: pp_def l_def)
      \<comment> \<open>the two comparisons at the split\<close>
      have Lnth: "?xs ! (a + i) = L ! i" if "i < l" for i
        using nth_L [OF p, of i L] that by (simp add: l_def)
      have Rnth: "?xs ! (m + i) = R ! i" if "i < r" for i
        using nth_R [OF p, of i R L s] that m by (simp add: r_def)
      have ab: "lt (L ! (k - 1)) (R ! q)" if "0 < k" "q < r"
      proof -
        have "k0 < k" using that q k by (auto simp: k0_def)
        then have "start0 < start" using start0 k by simp
        moreover have "start - 1 = a + (k - 1)" using k that by simp
        moreover have "pp - (start - 1) = m + q" using pp k q that by simp
        ultimately have "\<not> lt (?xs ! (m + q)) (?xs ! (a + (k - 1)))" using lo by simp
        then have "\<not> lt (R ! q) (L ! (k - 1))"
          using Rnth [OF that(2)] Lnth [of "k - 1"] that k by simp
        then show ?thesis using tot by blast
      qed
      have ba: "lt (R ! (q - 1)) (L ! k)" if "0 < q" "k < l"
      proof -
        have "k < kr" using that q k by (auto simp: kr_def)
        then have "start < r0" using r0 k by simp
        moreover have "pp - start = m + (q - 1)" using pp k q that by simp
        ultimately have "lt (?xs ! (m + (q - 1))) (?xs ! (a + k))" using hi k by simp
        then show ?thesis
          using Rnth [of "q - 1"] Lnth [OF that(2)] that q by simp
      qed
      define A1 where "A1 = take k L"
      define A2 where "A2 = drop k L"
      define B1 where "B1 = take q R"
      define B2 where "B2 = drop q R"
      have LA: "L = A1 @ A2" and RB: "R = B1 @ B2" by (simp_all add: A1_def A2_def B1_def B2_def)
      have len: "length A1 = k" "length A2 = l - k" "length B1 = q" "length B2 = r - q"
        using k q by (auto simp: A1_def A2_def B1_def B2_def l_def r_def)
      have sA: "sorted_wrt lt (A1 @ A2)" and sB: "sorted_wrt lt (B1 @ B2)"
        using sL sR LA RB by simp_all
      have sA1: "sorted_wrt lt A1" and sA2: "sorted_wrt lt A2"
        and sB1: "sorted_wrt lt B1" and sB2: "sorted_wrt lt B2"
        using sA sB by (auto simp: sorted_wrt_append)
      have ab': "A1 \<noteq> [] \<and> B2 \<noteq> [] \<longrightarrow> lt (last A1) (hd B2)"
      proof
        assume ne: "A1 \<noteq> [] \<and> B2 \<noteq> []"
        then have "0 < length A1" "0 < length B2" by auto
        then have kq: "0 < k" "q < r" unfolding len by auto
        have "last A1 = L ! (k - 1)"
          unfolding A1_def using kq k by (intro last_take_nth) (auto simp: l_def)
        moreover have "hd B2 = R ! q"
          using kq by (simp add: B2_def hd_drop_conv_nth r_def)
        ultimately show "lt (last A1) (hd B2)" using ab [OF kq] by simp
      qed
      have ba': "B1 \<noteq> [] \<and> A2 \<noteq> [] \<longrightarrow> lt (last B1) (hd A2)"
      proof
        assume ne: "B1 \<noteq> [] \<and> A2 \<noteq> []"
        then have "0 < length B1" "0 < length A2" by auto
        then have kq: "0 < q" "k < l" unfolding len by auto
        have "last B1 = R ! (q - 1)"
          unfolding B1_def using kq q by (intro last_take_nth) (auto simp: r_def)
        moreover have "hd A2 = L ! k"
          using kq by (simp add: A2_def hd_drop_conv_nth l_def)
        ultimately show "lt (last B1) (hd A2)" using ba [OF kq] by simp
      qed
      \<comment> \<open>the rotation\<close>
      have xs: "?xs = (p @ A1) @ A2 @ B1 @ (B2 @ s)" by (simp add: LA RB)
      have xs1: "xs1 = p @ A1 @ B1 @ A2 @ B2 @ s"
      proof (cases "start < m \<and> m < e")
        case True
        then have "A2 \<noteq> []" "B1 \<noteq> []" using len k e m by (auto simp: l_def)
        moreover have "length (p @ A1) = start" using p len k by simp
        moreover have "m = start + length A2" using len k m by (simp add: l_def)
        moreover have "e = m + length B1" using len e by simp
        ultimately have "rotate_seg ((p @ A1) @ A2 @ B1 @ (B2 @ s)) start m e
                         = (p @ A1) @ B1 @ A2 @ (B2 @ s)"
          by (intro rotate_seg_append) auto
        then show ?thesis using True by (simp add: xs1_def xs)
      next
        case False
        then have "A2 = [] \<or> B1 = []" using len k e m by (auto simp: l_def)
        then show ?thesis using False by (auto simp: xs1_def xs)
      qed
      \<comment> \<open>the left half\<close>
      have "\<exists>M1. xs2 = p @ M1 @ (A2 @ B2 @ s) \<and> sorted_wrt lt M1
                 \<and> mset M1 = mset A1 + mset B1"
      proof (cases "a < start \<and> start < mid")
        case True
        then have ne: "A1 \<noteq> []" "B1 \<noteq> []" using len k q mid by auto
        have "length A1 + length B1 < length L + length R"
          using len q h by (simp add: l_def r_def)
        from less.hyps [OF this p _ _ ne sA1 sB1, of start mid "A2 @ B2 @ s"]
        obtain M1 where "symMerge lt (p @ A1 @ B1 @ A2 @ B2 @ s) a start mid = p @ M1 @ A2 @ B2 @ s"
          "sorted_wrt lt M1" "mset M1 = mset A1 + mset B1"
          using len k q mid by auto
        moreover have "xs2 = symMerge lt xs1 a start mid" using True by (simp add: xs2_def)
        ultimately show ?thesis using xs1 by auto
      next
        case False
        then have "A1 = [] \<or> B1 = []" using len k q mid by auto
        then have "sorted_wrt lt (A1 @ B1)" using sA1 sB1 by auto
        moreover have "xs2 = xs1" by (simp only: xs2_def False if_False)
        ultimately show ?thesis using xs1 by (intro exI [of _ "A1 @ B1"]) simp
      qed
      then obtain M1 where M1: "xs2 = p @ M1 @ (A2 @ B2 @ s)" "sorted_wrt lt M1"
        "mset M1 = mset A1 + mset B1"
        by blast
      from M1(3) have "size (mset M1) = size (mset A1 + mset B1)" by simp
      then have lM1: "length M1 = h" using len q by simp
      \<comment> \<open>the right half\<close>
      have "\<exists>M2. symMerge lt ?xs a m b = p @ M1 @ M2 @ s \<and> sorted_wrt lt M2
                 \<and> mset M2 = mset A2 + mset B2"
      proof (cases "mid < e \<and> e < b")
        case True
        then have ne: "A2 \<noteq> []" "B2 \<noteq> []" using len k q mid e b m by (auto simp: l_def r_def)
        have "length A2 + length B2 < length L + length R"
          using len q h k by (simp add: l_def r_def)
        moreover have "length (p @ M1) = mid" using p lM1 mid by simp
        moreover have "e = mid + length A2" using len e mid m q k by (simp add: l_def)
        moreover have "b = e + length B2" using len e b q by (simp add: r_def)
        ultimately obtain M2 where
          "symMerge lt ((p @ M1) @ A2 @ B2 @ s) mid e b = (p @ M1) @ M2 @ s"
          "sorted_wrt lt M2" "mset M2 = mset A2 + mset B2"
          using less.hyps [of A2 B2 "p @ M1" mid e b s] ne sA2 sB2 by blast
        moreover have "symMerge lt ?xs a m b = symMerge lt xs2 mid e b"
          using True by (simp add: unfold)
        ultimately show ?thesis using M1 by auto
      next
        case False
        then have "A2 = [] \<or> B2 = []" using len k q mid e b m by (auto simp: l_def r_def)
        then have "sorted_wrt lt (A2 @ B2)" using sA2 sB2 by auto
        moreover have "symMerge lt ?xs a m b = xs2" by (simp only: unfold False if_False)
        ultimately show ?thesis using M1 by (intro exI [of _ "A2 @ B2"]) simp
      qed
      then obtain M2 where M2: "symMerge lt ?xs a m b = p @ M1 @ M2 @ s" "sorted_wrt lt M2"
        "mset M2 = mset A2 + mset B2"
        by blast
      have "sorted_wrt lt (M1 @ M2)"
      proof (rule sorted_two_halves [OF tot tr sA sB ab' ba' M1(2) M2(2)])
        from M1(3) have "set_mset (mset M1) = set_mset (mset A1 + mset B1)" by simp
        then show "set M1 = set A1 \<union> set B1" by simp
        from M2(3) have "set_mset (mset M2) = set_mset (mset A2 + mset B2)" by simp
        then show "set M2 = set A2 \<union> set B2" by simp
      qed
      moreover have "mset (M1 @ M2) = mset L + mset R"
        using M1(3) M2(3) by (simp add: LA RB)
      moreover have "symMerge lt ?xs a m b = p @ (M1 @ M2) @ s" using M2(1) by simp
      ultimately show ?thesis by blast
    qed
  qed
qed

text \<open>The passes of \<open>stable\<close>.\<close>

lemma runs_sorted_whole: "runs_sorted lt bs xs \<Longrightarrow> length xs \<le> bs \<Longrightarrow> sorted_wrt lt xs"
proof -
  assume "runs_sorted lt bs xs" and l: "length xs \<le> bs"
  then have "sorted_wrt lt (take bs (drop (0 * bs) xs))" unfolding runs_sorted_def by blast
  then show ?thesis using l by simp
qed

lemma sorted_runs_sorted: "sorted_wrt lt xs \<Longrightarrow> runs_sorted lt bs xs"
  unfolding runs_sorted_def by (simp add: sorted_wrt_take sorted_wrt_drop)

lemma runs_sorted_block:
  assumes "length blk = bs" and "sorted_wrt lt blk" and "runs_sorted lt bs rest"
  shows "runs_sorted lt bs (blk @ rest)"
  unfolding runs_sorted_def
proof
  fix i
  show "sorted_wrt lt (take bs (drop (i * bs) (blk @ rest)))"
  proof (cases i)
    case 0
    then show ?thesis using assms by simp
  next
    case (Suc j)
    have "drop (i * bs) (blk @ rest) = drop (j * bs) rest"
      using assms(1) Suc by simp
    then show ?thesis using assms(3) by (simp add: runs_sorted_def)
  qed
qed

lemma runs_sorted_first:
  "runs_sorted lt bs (L @ rest) \<Longrightarrow> length L \<le> bs \<Longrightarrow> sorted_wrt lt L"
proof -
  assume "runs_sorted lt bs (L @ rest)" and l: "length L \<le> bs"
  then have "sorted_wrt lt (take bs (drop (0 * bs) (L @ rest)))" unfolding runs_sorted_def by blast
  then have "sorted_wrt lt (L @ take (bs - length L) rest)" using l by simp
  then show ?thesis by (simp add: sorted_wrt_append)
qed

lemma runs_sorted_drop:
  "runs_sorted lt bs (L @ rest) \<Longrightarrow> length L = bs \<Longrightarrow> runs_sorted lt bs rest"
  unfolding runs_sorted_def
proof
  fix i
  assume a: "\<forall>i. sorted_wrt lt (take bs (drop (i * bs) (L @ rest)))" and l: "length L = bs"
  from a have "sorted_wrt lt (take bs (drop (Suc i * bs) (L @ rest)))" by blast
  then show "sorted_wrt lt (take bs (drop (i * bs) rest))" using l by simp
qed

lemma blockSize_pos: "0 < blockSize k"
  by (simp add: blockSize_def)

lemma blockSize_Suc: "blockSize (k + 1) = 2 * blockSize k"
  by (simp add: blockSize_def)

lemma insertionBlocks_correct:
  assumes tot: "\<And>x y. lt x y \<or> lt y x"
    and tr: "\<And>x y z. lt x y \<Longrightarrow> lt y z \<Longrightarrow> lt x z"
  shows "length pre = a \<Longrightarrow> b = a + blockSize 0 \<Longrightarrow> n = length pre + length rest \<Longrightarrow>
         \<exists>rest'. insertionBlocks lt (pre @ rest) a b n = pre @ rest' \<and> mset rest' = mset rest
                 \<and> runs_sorted lt (blockSize 0) rest'"
proof (induction "Suc n - b" arbitrary: pre rest a b rule: less_induct)
  case less
  note pre = \<open>length pre = a\<close> and b = \<open>b = a + blockSize 0\<close> and n = \<open>n = length pre + length rest\<close>
  have ins: "\<exists>blk'. insertionSort lt (p @ blk @ s) a' b' = p @ blk' @ s \<and> sorted_wrt lt blk'
                \<and> mset blk' = mset blk"
    if "length p = a'" "b' = a' + length blk" for p blk s a' b'
    using that
  proof (rule insertionSort_block [where lt = lt, rotated 2])
    show "lt x y \<or> lt y x" for x y by (rule tot)
    show "lt x y \<Longrightarrow> lt y z \<Longrightarrow> lt x z" for x y z by (rule tr)
  qed
  show ?case
  proof (cases "b \<le> n")
    case True
    define blk where "blk = take (blockSize 0) rest"
    define rest2 where "rest2 = drop (blockSize 0) rest"
    have rest: "rest = blk @ rest2" by (simp add: blk_def rest2_def)
    have lb: "length blk = blockSize 0" using True pre b n by (simp add: blk_def)
    have "\<exists>blk'. insertionSort lt (pre @ blk @ rest2) a b = pre @ blk' @ rest2
             \<and> sorted_wrt lt blk' \<and> mset blk' = mset blk"
      using pre b lb by (intro ins) auto
    then obtain blk' where
      blk': "insertionSort lt (pre @ blk @ rest2) a b = pre @ blk' @ rest2"
      "sorted_wrt lt blk'" "mset blk' = mset blk"
      by blast
    from blk'(3) have "size (mset blk') = size (mset blk)" by simp
    then have lb': "length blk' = blockSize 0" using lb by simp
    have "Suc n - (b + blockSize 0) < Suc n - b" using True blockSize_pos [of 0] by simp
    then have "\<exists>rest2'. insertionBlocks lt ((pre @ blk') @ rest2) b (b + blockSize 0) n
                 = (pre @ blk') @ rest2'
               \<and> mset rest2' = mset rest2 \<and> runs_sorted lt (blockSize 0) rest2'"
      using pre b n lb lb' rest by (intro less.hyps) auto
    then obtain rest2' where
      r: "insertionBlocks lt ((pre @ blk') @ rest2) b (b + blockSize 0) n = (pre @ blk') @ rest2'"
      "mset rest2' = mset rest2" "runs_sorted lt (blockSize 0) rest2'"
      by blast
    have "insertionBlocks lt (pre @ rest) a b n
          = insertionBlocks lt (insertionSort lt (pre @ rest) a b) b (b + blockSize 0) n"
      using True by (subst insertionBlocks.simps) simp
    also have "\<dots> = pre @ (blk' @ rest2') @ [] "
      using blk'(1) r(1) rest by simp
    finally have "insertionBlocks lt (pre @ rest) a b n = pre @ (blk' @ rest2')" by simp
    moreover have "mset (blk' @ rest2') = mset rest"
      using blk'(3) r(2) rest by simp
    moreover have "runs_sorted lt (blockSize 0) (blk' @ rest2')"
      using lb' blk'(2) r(3) by (rule runs_sorted_block)
    ultimately show ?thesis by blast
  next
    case False
    have "\<exists>blk'. insertionSort lt (pre @ rest @ []) a n = pre @ blk' @ []
             \<and> sorted_wrt lt blk' \<and> mset blk' = mset rest"
      using pre n by (intro ins) auto
    then obtain blk' where
      blk': "insertionSort lt (pre @ rest @ []) a n = pre @ blk' @ []"
      "sorted_wrt lt blk'" "mset blk' = mset rest"
      by blast
    have "insertionBlocks lt (pre @ rest) a b n = insertionSort lt (pre @ rest) a n"
      using False by (subst insertionBlocks.simps) simp
    then have "insertionBlocks lt (pre @ rest) a b n = pre @ blk'" using blk'(1) by simp
    moreover have "runs_sorted lt (blockSize 0) blk'"
      using blk'(2) by (rule sorted_runs_sorted)
    ultimately show ?thesis using blk'(3) by blast
  qed
qed

lemma mergeBlocks_correct:
  assumes tot: "\<And>x y. lt x y \<or> lt y x"
    and tr: "\<And>x y z. lt x y \<Longrightarrow> lt y z \<Longrightarrow> lt x z"
  shows "length pre = a \<Longrightarrow> b = a + 2 * blockSize k \<Longrightarrow> n = length pre + length rest \<Longrightarrow>
         runs_sorted lt (blockSize k) rest \<Longrightarrow>
         \<exists>rest'. mergeBlocks lt (pre @ rest) a b n k = pre @ rest' \<and> mset rest' = mset rest
                 \<and> runs_sorted lt (2 * blockSize k) rest'"
proof (induction "Suc n - b" arbitrary: pre rest a b rule: less_induct)
  case less
  note pre = \<open>length pre = a\<close> and b = \<open>b = a + 2 * blockSize k\<close>
    and n = \<open>n = length pre + length rest\<close> and rs = \<open>runs_sorted lt (blockSize k) rest\<close>
  define bs where "bs = blockSize k"
  have bs: "0 < bs" by (simp add: bs_def blockSize_pos)
  have mrg: "\<exists>M. symMerge lt (p @ L @ R @ s) a' m' b' = p @ M @ s \<and> sorted_wrt lt M
             \<and> mset M = mset L + mset R"
    if "length p = a'" "m' = a' + length L" "b' = m' + length R" "L \<noteq> []" "R \<noteq> []"
      "sorted_wrt lt L" "sorted_wrt lt R" for p L R s a' m' b'
    using that
  proof (rule symMerge_correct [where lt = lt, rotated 2])
    show "lt x y \<or> lt y x" for x y by (rule tot)
    show "lt x y \<Longrightarrow> lt y z \<Longrightarrow> lt x z" for x y z by (rule tr)
  qed
  show ?case
  proof (cases "b \<le> n")
    case True
    define L where "L = take bs rest"
    define R where "R = take bs (drop bs rest)"
    define rest2 where "rest2 = drop bs (drop bs rest)"
    have "drop bs rest = R @ rest2" unfolding R_def rest2_def by (rule append_take_drop_id [symmetric])
    moreover have "rest = L @ drop bs rest" unfolding L_def by (rule append_take_drop_id [symmetric])
    ultimately have rest: "rest = L @ R @ rest2" by simp
    have lr: "length L = bs" "length R = bs"
      using True pre b n by (auto simp: L_def R_def bs_def)
    have rs1: "runs_sorted lt bs (L @ R @ rest2)" using rs rest by (simp add: bs_def)
    have rs2: "runs_sorted lt bs (R @ rest2)" using rs1 lr(1) by (rule runs_sorted_drop)
    have rs3: "runs_sorted lt bs rest2" using rs2 lr(2) by (rule runs_sorted_drop)
    have sL: "sorted_wrt lt L" using rs1 lr(1) by (intro runs_sorted_first) auto
    have sR: "sorted_wrt lt R" using rs2 lr(2) by (intro runs_sorted_first) auto
    have ne: "L \<noteq> []" "R \<noteq> []" using lr bs by auto
    have "\<exists>M. symMerge lt (pre @ L @ R @ rest2) a (a + bs) b = pre @ M @ rest2
             \<and> sorted_wrt lt M \<and> mset M = mset L + mset R"
      using pre b lr ne sL sR by (intro mrg) (auto simp: bs_def)
    then obtain M where
      M: "symMerge lt (pre @ L @ R @ rest2) a (a + bs) b = pre @ M @ rest2"
      "sorted_wrt lt M" "mset M = mset L + mset R"
      by blast
    from M(3) have "size (mset M) = size (mset L + mset R)" by simp
    then have lM: "length M = 2 * bs" using lr by simp
    have "Suc n - (b + 2 * bs) < Suc n - b" using True bs by simp
    then have "\<exists>rest2'. mergeBlocks lt ((pre @ M) @ rest2) b (b + 2 * blockSize k) n k
                 = (pre @ M) @ rest2'
               \<and> mset rest2' = mset rest2 \<and> runs_sorted lt (2 * blockSize k) rest2'"
      using pre b n lr lM rest rs3 by (intro less.hyps) (auto simp: bs_def)
    then obtain rest2' where
      r: "mergeBlocks lt ((pre @ M) @ rest2) b (b + 2 * bs) n k = (pre @ M) @ rest2'"
      "mset rest2' = mset rest2" "runs_sorted lt (2 * bs) rest2'"
      unfolding bs_def by blast
    have "mergeBlocks lt (pre @ rest) a b n k
          = mergeBlocks lt (symMerge lt (pre @ rest) a (a + bs) b) b (b + 2 * bs) n k"
      using True by (subst mergeBlocks.simps) (simp add: bs_def)
    also have "\<dots> = pre @ (M @ rest2') @ []"
      using M(1) r(1) rest by simp
    finally have "mergeBlocks lt (pre @ rest) a b n k = pre @ (M @ rest2')" by simp
    moreover have "mset (M @ rest2') = mset rest"
      using M(3) r(2) rest by simp
    moreover have "runs_sorted lt (2 * bs) (M @ rest2')"
      using lM M(2) r(3) by (rule runs_sorted_block)
    ultimately show ?thesis unfolding bs_def by blast
  next
    case False
    show ?thesis
    proof (cases "a + bs < n")
      case True
      define L where "L = take bs rest"
      define R where "R = drop bs rest"
      have rest: "rest = L @ R" by (simp add: L_def R_def)
      have lr: "length L = bs" "length R = n - a - bs" "0 < length R" "length R \<le> bs"
        using True False pre b n by (auto simp: L_def R_def bs_def)
      have rs1: "runs_sorted lt bs (L @ R)" using rs rest by (simp add: bs_def)
      have rs2: "runs_sorted lt bs R" using rs1 lr(1) by (rule runs_sorted_drop)
      have sL: "sorted_wrt lt L" using rs1 lr(1) by (intro runs_sorted_first) auto
      have sR: "sorted_wrt lt R" using rs2 lr(4) by (rule runs_sorted_whole)
      have ne: "L \<noteq> []" "R \<noteq> []" using lr bs by auto
      have "\<exists>M. symMerge lt (pre @ L @ R @ []) a (a + bs) n = pre @ M @ []
               \<and> sorted_wrt lt M \<and> mset M = mset L + mset R"
        using pre n lr ne sL sR rest by (intro mrg) auto
      then obtain M where
        M: "symMerge lt (pre @ L @ R @ []) a (a + bs) n = pre @ M @ []"
        "sorted_wrt lt M" "mset M = mset L + mset R"
        by blast
      have "mergeBlocks lt (pre @ rest) a b n k = symMerge lt (pre @ rest) a (a + bs) n"
        using True False by (subst mergeBlocks.simps) (simp add: bs_def)
      then have "mergeBlocks lt (pre @ rest) a b n k = pre @ M" using M(1) rest by simp
      moreover have "mset M = mset rest" using M(3) rest by simp
      moreover have "runs_sorted lt (2 * bs) M" using M(2) by (rule sorted_runs_sorted)
      ultimately show ?thesis unfolding bs_def by blast
    next
      case F2: False
      then have "length rest \<le> bs" using pre n by simp
      with rs have "sorted_wrt lt rest" unfolding bs_def by (rule runs_sorted_whole)
      then have "runs_sorted lt (2 * bs) rest" by (rule sorted_runs_sorted)
      moreover have "mergeBlocks lt (pre @ rest) a b n k = pre @ rest"
        using False F2 by (subst mergeBlocks.simps) (simp add: bs_def)
      ultimately show ?thesis unfolding bs_def by blast
    qed
  qed
qed

lemma mergePasses_correct:
  assumes tot: "\<And>x y. lt x y \<or> lt y x"
    and tr: "\<And>x y z. lt x y \<Longrightarrow> lt y z \<Longrightarrow> lt x z"
  shows "n = length xs \<Longrightarrow> runs_sorted lt (blockSize k) xs \<Longrightarrow>
         sorted_wrt lt (mergePasses lt xs n k) \<and> mset (mergePasses lt xs n k) = mset xs"
proof (induction "n - blockSize k" arbitrary: xs k rule: less_induct)
  case less
  note n = \<open>n = length xs\<close> and rs = \<open>runs_sorted lt (blockSize k) xs\<close>
  show ?case
  proof (cases "blockSize k < n")
    case True
    have "\<exists>rest'. mergeBlocks lt ([] @ xs) 0 (2 * blockSize k) n k = [] @ rest'
            \<and> mset rest' = mset xs \<and> runs_sorted lt (2 * blockSize k) rest'"
    proof (rule mergeBlocks_correct [where lt = lt])
      show "lt x y \<or> lt y x" for x y by (rule tot)
      show "lt x y \<Longrightarrow> lt y z \<Longrightarrow> lt x z" for x y z by (rule tr)
    qed (use n rs in auto)
    then obtain xs' where
      x: "mergeBlocks lt xs 0 (2 * blockSize k) n k = xs'" "mset xs' = mset xs"
      "runs_sorted lt (blockSize (k + 1)) xs'"
      using blockSize_Suc [of k] by auto
    from x(2) have "size (mset xs') = size (mset xs)" by simp
    then have lx: "n = length xs'" using n by simp
    have "n - blockSize (k + 1) < n - blockSize k"
      using True blockSize_pos [of k] blockSize_Suc [of k] by simp
    from less.hyps [OF this lx x(3)]
    have "sorted_wrt lt (mergePasses lt xs' n (k + 1))"
      "mset (mergePasses lt xs' n (k + 1)) = mset xs'" by auto
    moreover have "mergePasses lt xs n k = mergePasses lt xs' n (k + 1)"
      using True x(1) by (subst mergePasses.simps) simp
    ultimately show ?thesis using x(2) by simp
  next
    case False
    then have "length xs \<le> blockSize k" using n by simp
    with rs have "sorted_wrt lt xs" by (rule runs_sorted_whole)
    moreover have "mergePasses lt xs n k = xs"
      using False by (subst mergePasses.simps) simp
    ultimately show ?thesis by simp
  qed
qed

lemma Stable_correct:
  assumes tot: "\<And>x y. lt x y \<or> lt y x"
    and tr: "\<And>x y z. lt x y \<Longrightarrow> lt y z \<Longrightarrow> lt x z"
  shows "sorted_wrt lt (Stable lt xs) \<and> mset (Stable lt xs) = mset xs"
proof -
  have "\<exists>rest'. insertionBlocks lt ([] @ xs) 0 (blockSize 0) (length xs) = [] @ rest'
          \<and> mset rest' = mset xs \<and> runs_sorted lt (blockSize 0) rest'"
  proof (rule insertionBlocks_correct [where lt = lt])
    show "lt x y \<or> lt y x" for x y by (rule tot)
    show "lt x y \<Longrightarrow> lt y z \<Longrightarrow> lt x z" for x y z by (rule tr)
  qed auto
  then obtain xs' where
    x: "insertionBlocks lt xs 0 (blockSize 0) (length xs) = xs'" "mset xs' = mset xs"
    "runs_sorted lt (blockSize 0) xs'"
    by auto
  from x(2) have "size (mset xs') = size (mset xs)" by simp
  then have lx: "length xs = length xs'" by simp
  have "sorted_wrt lt (mergePasses lt xs' (length xs) 0)
        \<and> mset (mergePasses lt xs' (length xs) 0) = mset xs'"
  proof (rule mergePasses_correct [where lt = lt])
    show "lt x y \<or> lt y x" for x y by (rule tot)
    show "lt x y \<Longrightarrow> lt y z \<Longrightarrow> lt x z" for x y z by (rule tr)
  qed (use lx x(3) in auto)
  then show ?thesis using x by (simp add: Stable_def stable_def)
qed

lemma Less_total: "Less a b \<or> Less b a"
  unfolding Less_def by auto

lemma Less_trans: "Less a b \<Longrightarrow> Less b c \<Longrightarrow> Less a c"
  unfolding Less_def by (auto split: if_splits)

lemma Less_iff: "Less x y \<longleftrightarrow> Node x < Node y \<or> (Node x = Node y \<and> ID x \<le> ID y)"
  unfolding Less_def by auto

lemma Stable_Less:
  "sorted_wrt Less (Stable Less xs) \<and> mset (Stable Less xs) = mset xs"
proof (rule Stable_correct [where lt = Less])
  show "Less x y \<or> Less y x" for x y by (rule Less_total)
  show "Less x y \<Longrightarrow> Less y z \<Longrightarrow> Less x z" for x y z by (rule Less_trans)
qed

lemma mset_Stable_Less: "mset (Stable Less xs) = mset xs"
  using Stable_Less [of xs] by simp

lemma set_Stable_Less: "set (Stable Less xs) = set xs"
proof -
  have "set_mset (mset (Stable Less xs)) = set_mset (mset xs)"
    by (simp only: mset_Stable_Less)
  then show ?thesis by simp
qed

lemma sorted_Stable_Less:
  "sorted_wrt (\<lambda>x y. Node x < Node y \<or> (Node x = Node y \<and> ID x \<le> ID y)) (Stable Less xs)"
proof -
  have "sorted_wrt Less (Stable Less xs)"
    using Stable_Less [of xs] by simp
  then show ?thesis
    by (rule sorted_wrt_mono_rel [rotated]) (simp add: Less_iff)
qed

subsection \<open>Stop and Fetch\<close>

lemma entriesLoop_eq:
  "entriesLoop lib fs entries =
     map (\<lambda>e. toHealthService lib e (AggregatedStatus lib (e_Checks e)))
       (filter (\<lambda>e. acceptStatus fs (AggregatedStatus lib (e_Checks e))) entries)"
  by (induction entries) (auto simp: Let_def)

lemma Fetch_Inr_cases:
  assumes "Fetch lib clients d calls = (Inr (list, rm), calls')"
  obtains entries qm po o' where
    "stopCh d = Open"
    "(if connect d then Connect clients else Service clients) (name d) (tag d) po o'
       = Inr (entries, qm)"
    "list = (if near d = [] then Stable Less (entriesLoop lib (filters d) entries)
             else entriesLoop lib (filters d) entries)"
    "rm = \<lparr> LastIndex = qm_LastIndex qm, LastContact = qm_LastContact qm \<rparr>"
  using assms unfolding Fetch_def Let_def
  by (auto split: chan.splits sum.splits prod.splits if_splits)

text \<open>
  C1, amended. \<open>Stop\<close> on a query that has not been stopped closes its stop channel,
  changes nothing else and returns; \<open>Stop\<close> is not idempotent: a second call closes a
  closed channel, which panics.
\<close>

theorem Stop_once_then_panics:
  "stopCh d = Open \<Longrightarrow>
     Stop d = Inr (d\<lparr>stopCh := Closed\<rparr>)
     \<and> Stop (d\<lparr>stopCh := Closed\<rparr>) = Inl CloseOfClosedChannel"
  by (simp add: Stop_def close_def)

theorem Stop_once_then_panics_witness:
  "stopCh web_query = Open
   \<and> Stop web_query = Inr (web_query\<lparr>stopCh := Closed\<rparr>)
   \<and> Stop (web_query\<lparr>stopCh := Closed\<rparr>) = Inl CloseOfClosedChannel"
proof -
  have h: "stopCh web_query = Open" by (simp add: web_query_def)
  show ?thesis using h Stop_once_then_panics [OF h] by simp
qed

text \<open>
  The claim as the specification states it, that a second \<open>Stop\<close> returns without
  panicking and leaves the query as it is, fails on the query the constructor builds
  from \<open>web\<close>.
\<close>

theorem Stop_twice_counterexample:
  "NewHealthServiceQuery example_re ''web'' = Inr web_query
   \<and> Stop web_query = Inr web_stopped
   \<and> Stop web_stopped = Inl CloseOfClosedChannel
   \<and> Stop web_stopped \<noteq> Inr web_stopped"
proof -
  have "NewHealthServiceQuery example_re ''web'' = Inr web_query" by code_simp
  moreover have "Stop web_query = Inr web_stopped"
    by (simp add: Stop_def close_def web_stopped_def web_query_def)
  moreover have "Stop web_stopped = Inl CloseOfClosedChannel"
    by (simp add: Stop_def close_def web_stopped_def web_query_def)
  ultimately show ?thesis by simp
qed

text \<open>
  C2. Once \<open>Stop\<close> has returned, \<open>Fetch\<close> returns the stopped sentinel
  \<open>ErrStopped\<close> and the log of requests is as it was: the stop channel is read before
  the request is made. \<open>Fetch\<close> does not change the query and \<open>SetOptions\<close> does not
  change the stop channel, so this holds for every later call.
\<close>

theorem Fetch_after_Stop:
  "Stop d = Inr d' \<Longrightarrow>
     Fetch lib clients d' calls = (Inl ErrStopped, calls)
     \<and> Fetch lib clients (SetOptions d' o') calls = (Inl ErrStopped, calls)"
  by (auto simp: Stop_def close_def Fetch_def SetOptions_def split: chan.splits)

theorem Fetch_after_Stop_witness:
  "Stop web_query = Inr web_stopped
   \<and> Fetch example_lib example_clients web_stopped [] = (Inl ErrStopped, [])
   \<and> Fetch example_lib example_clients (SetOptions web_stopped (opts web_stopped)) []
       = (Inl ErrStopped, [])"
proof -
  have h: "Stop web_query = Inr web_stopped"
    by (simp add: Stop_def close_def web_stopped_def web_query_def)
  show ?thesis
    using h Fetch_after_Stop [OF h, of example_lib example_clients "[]" "opts web_stopped"]
    by simp
qed

text \<open>A fetch on a query that is not stopped makes one request.\<close>

lemma Fetch_open_calls_once:
  "stopCh d = Open \<Longrightarrow> length (snd (Fetch lib clients d calls)) = Suc (length calls)"
  by (auto simp: Fetch_def Let_def split: sum.splits prod.splits)

text \<open>
  C5. The list of a successful \<open>Fetch\<close> holds the entries of the server's answer that
  pass the client-side filter. If \<open>near\<close> is empty it is sorted by \<open>(Node, ID)\<close> in
  non-decreasing lexicographic order; if \<open>near\<close> is set it is in the order of the
  server's answer.
\<close>

theorem Fetch_order:
  assumes "Fetch lib clients d calls = (Inr (list, rm), calls')"
  shows "\<exists>entries qm po o'.
           (if connect d then Connect clients else Service clients) (name d) (tag d) po o'
             = Inr (entries, qm)
           \<and> mset list = mset (map (\<lambda>e. toHealthService lib e (AggregatedStatus lib (e_Checks e)))
                                (filter (\<lambda>e. acceptStatus (filters d) (AggregatedStatus lib (e_Checks e))) entries))
           \<and> (near d = [] \<longrightarrow>
                sorted_wrt (\<lambda>x y. Node x < Node y \<or> (Node x = Node y \<and> ID x \<le> ID y)) list)
           \<and> (near d \<noteq> [] \<longrightarrow>
                list = map (\<lambda>e. toHealthService lib e (AggregatedStatus lib (e_Checks e)))
                         (filter (\<lambda>e. acceptStatus (filters d) (AggregatedStatus lib (e_Checks e))) entries))"
proof -
  from assms obtain entries qm po o' where
    r: "(if connect d then Connect clients else Service clients) (name d) (tag d) po o'
          = Inr (entries, qm)"
    and l: "list = (if near d = [] then Stable Less (entriesLoop lib (filters d) entries)
                    else entriesLoop lib (filters d) entries)"
    by (rule Fetch_Inr_cases)
  have m: "mset list = mset (entriesLoop lib (filters d) entries)"
    using l by (simp add: mset_Stable_Less)
  have s: "near d = [] \<longrightarrow>
             sorted_wrt (\<lambda>x y. Node x < Node y \<or> (Node x = Node y \<and> ID x \<le> ID y)) list"
    using l by (simp add: sorted_Stable_Less)
  have n: "near d \<noteq> [] \<longrightarrow> list = entriesLoop lib (filters d) entries"
    using l by simp
  show ?thesis
    using r m s n unfolding entriesLoop_eq by blast
qed

theorem Fetch_order_witness:
  "Fetch example_lib example_clients web_query [] =
     (Inr ([toHealthService example_lib entry_b ''passing'', toHealthService example_lib entry_a ''passing''],
           \<lparr> LastIndex = 7, LastContact = 0 \<rparr>),
      [CallService ''web'' [] True \<lparr> Datacenter = [], Near = [], WaitIndex = 0, WaitTime = 0 \<rparr>])
   \<and> near web_query = []
   \<and> sorted_wrt (\<lambda>x y. Node x < Node y \<or> (Node x = Node y \<and> ID x \<le> ID y))
        [toHealthService example_lib entry_b ''passing'', toHealthService example_lib entry_a ''passing'']
   \<and> Fetch example_lib example_clients near_query [] =
     (Inr ([toHealthService example_lib entry_a ''passing'', toHealthService example_lib entry_b ''passing''],
           \<lparr> LastIndex = 7, LastContact = 0 \<rparr>),
      [CallService ''web'' [] True \<lparr> Datacenter = [], Near = ''n1'', WaitIndex = 0, WaitTime = 0 \<rparr>])
   \<and> near near_query \<noteq> []
   \<and> (\<exists>entries. [toHealthService example_lib entry_a ''passing'', toHealthService example_lib entry_b ''passing''] =
          map (\<lambda>e. toHealthService example_lib e (AggregatedStatus example_lib (e_Checks e)))
            (filter (\<lambda>e. acceptStatus (filters near_query) (AggregatedStatus example_lib (e_Checks e))) entries))"
proof -
  have f1: "Fetch example_lib example_clients web_query [] =
     (Inr ([toHealthService example_lib entry_b ''passing'', toHealthService example_lib entry_a ''passing''],
           \<lparr> LastIndex = 7, LastContact = 0 \<rparr>),
      [CallService ''web'' [] True \<lparr> Datacenter = [], Near = [], WaitIndex = 0, WaitTime = 0 \<rparr>])"
    by code_simp
  have f2: "Fetch example_lib example_clients near_query [] =
     (Inr ([toHealthService example_lib entry_a ''passing'', toHealthService example_lib entry_b ''passing''],
           \<lparr> LastIndex = 7, LastContact = 0 \<rparr>),
      [CallService ''web'' [] True \<lparr> Datacenter = [], Near = ''n1'', WaitIndex = 0, WaitTime = 0 \<rparr>])"
    by code_simp
  have n1: "near web_query = []" by (simp add: web_query_def)
  have n2: "near near_query \<noteq> []" by (simp add: near_query_def)
  from Fetch_order [OF f1] n1 have s1:
    "sorted_wrt (\<lambda>x y. Node x < Node y \<or> (Node x = Node y \<and> ID x \<le> ID y))
        [toHealthService example_lib entry_b ''passing'', toHealthService example_lib entry_a ''passing'']"
    by blast
  from Fetch_order [OF f2] have s2:
    "\<exists>entries. [toHealthService example_lib entry_a ''passing'', toHealthService example_lib entry_b ''passing''] =
          map (\<lambda>e. toHealthService example_lib e (AggregatedStatus example_lib (e_Checks e)))
            (filter (\<lambda>e. acceptStatus (filters near_query) (AggregatedStatus example_lib (e_Checks e))) entries)"
    apply (elim exE conjE)
    apply (intro exI)
    apply (erule mp)
    apply (rule n2)
    done
  from f1 n1 s1 f2 n2 s2 show ?thesis by (intro conjI)
qed

text \<open>
  C10. Every element of the list of a successful \<open>Fetch\<close> comes from an entry of the
  server's answer; its \<open>Address\<close> is the address of the entry's service if that is not
  empty and the address of the entry's node otherwise, so it is not empty when the
  node has an address.
\<close>

theorem Fetch_Address:
  assumes "Fetch lib clients d calls = (Inr (list, rm), calls')" and "h \<in> set list"
  shows "\<exists>entry entries qm po o'.
           (if connect d then Connect clients else Service clients) (name d) (tag d) po o'
             = Inr (entries, qm)
           \<and> entry \<in> set entries
           \<and> h = toHealthService lib entry (AggregatedStatus lib (e_Checks entry))
           \<and> Address h = (if s_Address (e_Service entry) \<noteq> [] then s_Address (e_Service entry)
                          else n_Address (e_Node entry))
           \<and> (n_Address (e_Node entry) \<noteq> [] \<longrightarrow> Address h \<noteq> [])"
proof -
  from assms(1) obtain entries qm po o' where
    r: "(if connect d then Connect clients else Service clients) (name d) (tag d) po o'
          = Inr (entries, qm)"
    and l: "list = (if near d = [] then Stable Less (entriesLoop lib (filters d) entries)
                    else entriesLoop lib (filters d) entries)"
    by (rule Fetch_Inr_cases)
  have "set list = set (entriesLoop lib (filters d) entries)"
    using l by (simp add: set_Stable_Less)
  with assms(2) obtain entry where
    e: "entry \<in> set entries" and h: "h = toHealthService lib entry (AggregatedStatus lib (e_Checks entry))"
    unfolding entriesLoop_eq by auto
  have a: "Address h = (if s_Address (e_Service entry) \<noteq> [] then s_Address (e_Service entry)
                        else n_Address (e_Node entry))"
    using h by (simp add: toHealthService_def)
  then have "n_Address (e_Node entry) \<noteq> [] \<longrightarrow> Address h \<noteq> []" by simp
  with r e h a show ?thesis by blast
qed

theorem Fetch_Address_witness:
  "Fetch example_lib example_clients web_query [] =
     (Inr ([toHealthService example_lib entry_b ''passing'', toHealthService example_lib entry_a ''passing''],
           \<lparr> LastIndex = 7, LastContact = 0 \<rparr>),
      [CallService ''web'' [] True \<lparr> Datacenter = [], Near = [], WaitIndex = 0, WaitTime = 0 \<rparr>])
   \<and> toHealthService example_lib entry_a ''passing''
        \<in> set [toHealthService example_lib entry_b ''passing'', toHealthService example_lib entry_a ''passing'']
   \<and> (\<exists>entry. toHealthService example_lib entry_a ''passing'' = toHealthService example_lib entry (AggregatedStatus example_lib (e_Checks entry))
         \<and> Address (toHealthService example_lib entry_a ''passing'') =
             (if s_Address (e_Service entry) \<noteq> [] then s_Address (e_Service entry)
              else n_Address (e_Node entry)))
   \<and> Address (toHealthService example_lib entry_a ''passing'') = ''10.0.0.2''
   \<and> Address (toHealthService example_lib entry_b ''passing'') = ''192.168.0.1''"
proof -
  have f1: "Fetch example_lib example_clients web_query [] =
     (Inr ([toHealthService example_lib entry_b ''passing'', toHealthService example_lib entry_a ''passing''],
           \<lparr> LastIndex = 7, LastContact = 0 \<rparr>),
      [CallService ''web'' [] True \<lparr> Datacenter = [], Near = [], WaitIndex = 0, WaitTime = 0 \<rparr>])"
    by code_simp
  have m: "toHealthService example_lib entry_a ''passing''
        \<in> set [toHealthService example_lib entry_b ''passing'', toHealthService example_lib entry_a ''passing'']"
    by simp
  from Fetch_Address [OF f1 m] have e:
    "\<exists>entry. toHealthService example_lib entry_a ''passing'' = toHealthService example_lib entry (AggregatedStatus example_lib (e_Checks entry))
         \<and> Address (toHealthService example_lib entry_a ''passing'') =
             (if s_Address (e_Service entry) \<noteq> [] then s_Address (e_Service entry)
              else n_Address (e_Node entry))"
    by blast
  have a: "Address (toHealthService example_lib entry_a ''passing'') = ''10.0.0.2''"
    by (simp add: toHealthService_def entry_a_def)
  have b: "Address (toHealthService example_lib entry_b ''passing'') = ''192.168.0.1''"
    by (simp add: toHealthService_def entry_b_def)
  from f1 m e a b show ?thesis by blast
qed

subsection \<open>The constructor\<close>

lemma filterLoop_invalid:
  "f \<in> set split \<Longrightarrow>
   TrimSpace f \<notin> {HealthAny, HealthPassing, HealthWarning, HealthCritical, HealthMaint, []} \<Longrightarrow>
   \<exists>f'. filterLoop split s fs = Inl (InvalidFilter f' s)"
proof (induction split arbitrary: fs)
  case Nil
  then show ?case by simp
next
  case (Cons g split)
  show ?case
  proof (cases "TrimSpace g \<in> {HealthAny, HealthPassing, HealthWarning, HealthCritical, HealthMaint, []}")
    case True
    with Cons.prems have "f \<in> set split" by auto
    from Cons.IH [OF this Cons.prems(2)] True show ?thesis
      by (auto simp: Let_def)
  next
    case False
    then show ?thesis by (auto simp: Let_def)
  qed
qed

text \<open>
  C6, amended. A query string the regular expression does not match gets the
  invalid-format error. When it matches and no filter clause is given, the query has
  the fields of the match and its filters are \<open>passing\<close> alone. When it matches and the
  filter clause names anything (not empty after trimming) outside \<open>any\<close>, \<open>passing\<close>,
  \<open>warning\<close>, \<open>critical\<close> and \<open>maintenance\<close>, the constructor returns an
  invalid-filter error and no query.
\<close>

theorem NewHealthServiceQuery_filters:
  "(re s = None \<longrightarrow> NewHealthServiceQuery re s = Inl (InvalidFormat s))
   \<and> (re s = Some m \<and> m ''filter'' = [] \<longrightarrow>
        (\<exists>d. NewHealthServiceQuery re s = Inr d \<and> filters d = [HealthPassing]
              \<and> tag d = m ''tag'' \<and> name d = m ''name'' \<and> dc d = m ''dc'' \<and> near d = m ''near''))
   \<and> (re s = Some m \<and> f \<in> set (Split (m ''filter'') (CHR '',''))
        \<and> TrimSpace f \<notin> {HealthAny, HealthPassing, HealthWarning, HealthCritical, HealthMaint, []}
      \<longrightarrow> (\<exists>f'. NewHealthServiceQuery re s = Inl (InvalidFilter f' s)))"
proof (intro conjI impI)
  assume "re s = None"
  then show "NewHealthServiceQuery re s = Inl (InvalidFormat s)"
    by (simp add: NewHealthServiceQuery_def healthServiceQuery_def)
next
  assume "re s = Some m \<and> m ''filter'' = []"
  then show "\<exists>d. NewHealthServiceQuery re s = Inr d \<and> filters d = [HealthPassing]
              \<and> tag d = m ''tag'' \<and> name d = m ''name'' \<and> dc d = m ''dc'' \<and> near d = m ''near''"
    by (simp add: NewHealthServiceQuery_def healthServiceQuery_def)
next
  assume a: "re s = Some m \<and> f \<in> set (Split (m ''filter'') (CHR '',''))
        \<and> TrimSpace f \<notin> {HealthAny, HealthPassing, HealthWarning, HealthCritical, HealthMaint, []}"
  have ne: "m ''filter'' \<noteq> []"
  proof
    assume "m ''filter'' = []"
    with a have "f = []" by simp
    moreover have "TrimSpace [] = []" by code_simp
    ultimately show False using a by simp
  qed
  from a obtain f' where
    "filterLoop (Split (m ''filter'') (CHR '','')) s [] = Inl (InvalidFilter f' s)"
    using filterLoop_invalid by blast
  with a ne show "\<exists>f'. NewHealthServiceQuery re s = Inl (InvalidFilter f' s)"
    by (simp add: NewHealthServiceQuery_def healthServiceQuery_def)
qed

theorem NewHealthServiceQuery_filters_witness:
  "example_re ''nope nope'' = None
   \<and> NewHealthServiceQuery example_re ''nope nope'' = Inl (InvalidFormat ''nope nope'')
   \<and> example_re ''web'' = Some (groups [(''name'', ''web'')])
   \<and> groups [(''name'', ''web'')] ''filter'' = []
   \<and> (\<exists>d. NewHealthServiceQuery example_re ''web'' = Inr d \<and> filters d = [HealthPassing])
   \<and> example_re ''web|foo'' = Some (groups [(''name'', ''web''), (''filter'', ''foo'')])
   \<and> ''foo'' \<in> set (Split (groups [(''name'', ''web''), (''filter'', ''foo'')] ''filter'') (CHR '',''))
   \<and> TrimSpace ''foo'' \<notin> {HealthAny, HealthPassing, HealthWarning, HealthCritical, HealthMaint, []}
   \<and> (\<exists>f'. NewHealthServiceQuery example_re ''web|foo'' = Inl (InvalidFilter f' ''web|foo''))"
proof -
  have a1: "example_re ''nope nope'' = None" by (simp add: example_re_def)
  have b1: "example_re ''web'' = Some (groups [(''name'', ''web'')])" by (simp add: example_re_def)
  have b2: "groups [(''name'', ''web'')] ''filter'' = []" by (simp add: groups_def)
  have c1: "example_re ''web|foo'' = Some (groups [(''name'', ''web''), (''filter'', ''foo'')])"
    by (simp add: example_re_def)
  have c2: "''foo'' \<in> set (Split (groups [(''name'', ''web''), (''filter'', ''foo'')] ''filter'') (CHR '',''))"
    by (simp add: groups_def)
  have t: "TrimSpace ''foo'' = ''foo''" by code_simp
  have c3: "TrimSpace ''foo'' \<notin> {HealthAny, HealthPassing, HealthWarning, HealthCritical, HealthMaint, []}"
    unfolding t by (simp add: HealthAny_def HealthPassing_def HealthWarning_def HealthCritical_def HealthMaint_def)
  from NewHealthServiceQuery_filters [of example_re "''nope nope''"] a1
  have r1: "NewHealthServiceQuery example_re ''nope nope'' = Inl (InvalidFormat ''nope nope'')"
    by blast
  from NewHealthServiceQuery_filters [of example_re "''web''" "groups [(''name'', ''web'')]"] b1 b2
  have r2: "\<exists>d. NewHealthServiceQuery example_re ''web'' = Inr d \<and> filters d = [HealthPassing]"
    by blast
  from NewHealthServiceQuery_filters [of example_re "''web|foo''"
         "groups [(''name'', ''web''), (''filter'', ''foo'')]" "''foo''"] c1 c2 c3
  have r3: "\<exists>f'. NewHealthServiceQuery example_re ''web|foo'' = Inl (InvalidFilter f' ''web|foo'')"
    by blast
  from a1 r1 b1 b2 r2 c1 c2 c3 r3 show ?thesis by blast
qed

text \<open>
  The claim as the specification states it, that a filter outside the five names gets
  the invalid-format error, fails on \<open>web|foo\<close>: the regular expression matches and the
  error is the invalid-filter error.
\<close>

theorem NewHealthServiceQuery_invalid_filter_counterexample:
  "example_re ''web|foo'' \<noteq> None
   \<and> NewHealthServiceQuery example_re ''web|foo'' = Inl (InvalidFilter ''foo'' ''web|foo'')
   \<and> NewHealthServiceQuery example_re ''web|foo'' \<noteq> Inl (InvalidFormat ''web|foo'')"
proof -
  have a: "example_re ''web|foo'' \<noteq> None" by (simp add: example_re_def)
  have b: "NewHealthServiceQuery example_re ''web|foo'' = Inl (InvalidFilter ''foo'' ''web|foo'')"
    by code_simp
  from a b show ?thesis by simp
qed

subsection \<open>Lease check wait\<close>

lemma uniform_bounds: "lo \<le> hi \<Longrightarrow> 0 \<le> r \<Longrightarrow> r \<le> 1 \<Longrightarrow> lo \<le> uniform lo hi r \<and> uniform lo hi r \<le> hi"
proof -
  assume a: "lo \<le> hi" "0 \<le> r" "r \<le> 1"
  then have "0 \<le> r * (hi - lo)" by simp
  moreover have "r * (hi - lo) \<le> 1 * (hi - lo)" using a by (intro mult_right_mono) auto
  ultimately show ?thesis by (simp add: uniform_def)
qed

text \<open>
  C3. For every draw: a renewable secret with \<open>LeaseDuration = 100\<close> waits at least 16
  and less than 34 seconds; a non-renewable secret with \<open>LeaseDuration = 100\<close> and no
  data waits between 85 and 95 seconds; a non-renewable secret whose data carries
  \<open>rotation_period = 60\<close> and \<open>ttl = 30\<close> waits 31 seconds, and one with
  \<open>rotation_period = 30\<close> and \<open>ttl = 5\<close> waits 6 seconds.
\<close>

theorem leaseCheckWait_bounds:
  assumes "0 \<le> r" and "r \<le> 1"
  shows "(Renewable s \<and> LeaseDuration s = 100 \<longrightarrow>
            16 \<le> leaseCheckWait s r \<and> leaseCheckWait s r < 34)
       \<and> (\<not> Renewable s \<and> LeaseDuration s = 100 \<and> Data s = Map.empty \<longrightarrow>
            85 \<le> leaseCheckWait s r \<and> leaseCheckWait s r \<le> 95)
       \<and> (\<not> Renewable s \<and> Data s ''rotation_period'' = Some (Number 60)
            \<and> Data s ''ttl'' = Some (Number 30) \<longrightarrow> leaseCheckWait s r = 31)
       \<and> (\<not> Renewable s \<and> Data s ''rotation_period'' = Some (Number 30)
            \<and> Data s ''ttl'' = Some (Number 5) \<longrightarrow> leaseCheckWait s r = 6)"
proof (intro conjI impI)
  assume a: "Renewable s \<and> LeaseDuration s = 100"
  have "(100::real) / 6 \<le> uniform (100 / 6) (100 / 3) r \<and> uniform (100 / 6) (100 / 3) r \<le> 100 / 3"
    using assms by (intro uniform_bounds) auto
  then show "16 \<le> leaseCheckWait s r" "leaseCheckWait s r < 34"
    using a by (auto simp: leaseCheckWait_def)
next
  assume a: "\<not> Renewable s \<and> LeaseDuration s = 100 \<and> Data s = Map.empty"
  have "(85::real) \<le> uniform 85 95 r \<and> uniform 85 95 r \<le> 95"
    using assms by (intro uniform_bounds) auto
  then show "85 \<le> leaseCheckWait s r" "leaseCheckWait s r \<le> 95"
    using a by (auto simp: leaseCheckWait_def number_def)
next
  assume "\<not> Renewable s \<and> Data s ''rotation_period'' = Some (Number 60)
            \<and> Data s ''ttl'' = Some (Number 30)"
  then show "leaseCheckWait s r = 31" by (simp add: leaseCheckWait_def number_def)
next
  assume "\<not> Renewable s \<and> Data s ''rotation_period'' = Some (Number 30)
            \<and> Data s ''ttl'' = Some (Number 5)"
  then show "leaseCheckWait s r = 6" by (simp add: leaseCheckWait_def number_def)
qed

theorem leaseCheckWait_bounds_witness:
  "(0::real) \<le> 1 / 2 \<and> (1::real) / 2 \<le> 1
   \<and> Renewable renewable \<and> LeaseDuration renewable = 100
   \<and> 16 \<le> leaseCheckWait renewable (1 / 2) \<and> leaseCheckWait renewable (1 / 2) < 34
   \<and> \<not> Renewable nonRenewable \<and> LeaseDuration nonRenewable = 100 \<and> Data nonRenewable = Map.empty
   \<and> 85 \<le> leaseCheckWait nonRenewable (1 / 2) \<and> leaseCheckWait nonRenewable (1 / 2) \<le> 95
   \<and> Data (nonRenewableRotated 60 30) ''rotation_period'' = Some (Number 60)
   \<and> Data (nonRenewableRotated 60 30) ''ttl'' = Some (Number 30)
   \<and> leaseCheckWait (nonRenewableRotated 60 30) (1 / 2) = 31
   \<and> Data (nonRenewableRotated 30 5) ''rotation_period'' = Some (Number 30)
   \<and> Data (nonRenewableRotated 30 5) ''ttl'' = Some (Number 5)
   \<and> leaseCheckWait (nonRenewableRotated 30 5) (1 / 2) = 6"
proof -
  have r: "(0::real) \<le> 1 / 2" "(1::real) / 2 \<le> 1" by simp_all
  have a: "Renewable renewable \<and> LeaseDuration renewable = 100"
    by (simp add: renewable_def)
  have b: "\<not> Renewable nonRenewable \<and> LeaseDuration nonRenewable = 100
           \<and> Data nonRenewable = Map.empty"
    by (simp add: nonRenewable_def)
  have c: "\<not> Renewable (nonRenewableRotated 60 30)
           \<and> Data (nonRenewableRotated 60 30) ''rotation_period'' = Some (Number 60)
           \<and> Data (nonRenewableRotated 60 30) ''ttl'' = Some (Number 30)"
    by (simp add: nonRenewableRotated_def)
  have d: "\<not> Renewable (nonRenewableRotated 30 5)
           \<and> Data (nonRenewableRotated 30 5) ''rotation_period'' = Some (Number 30)
           \<and> Data (nonRenewableRotated 30 5) ''ttl'' = Some (Number 5)"
    by (simp add: nonRenewableRotated_def)
  from leaseCheckWait_bounds [OF r, of renewable] a
  have ra: "16 \<le> leaseCheckWait renewable (1 / 2) \<and> leaseCheckWait renewable (1 / 2) < 34"
    by blast
  from leaseCheckWait_bounds [OF r, of nonRenewable] b
  have rb: "85 \<le> leaseCheckWait nonRenewable (1 / 2) \<and> leaseCheckWait nonRenewable (1 / 2) \<le> 95"
    by blast
  from leaseCheckWait_bounds [OF r, of "nonRenewableRotated 60 30"] c
  have rc: "leaseCheckWait (nonRenewableRotated 60 30) (1 / 2) = 31"
    by blast
  from leaseCheckWait_bounds [OF r, of "nonRenewableRotated 30 5"] d
  have rd: "leaseCheckWait (nonRenewableRotated 30 5) (1 / 2) = 6"
    by blast
  from r a b c d ra rb rc rd show ?thesis by blast
qed



subsection \<open>Vault list query\<close>

lemma Trim_slash_front: "Trim (c # s) c = Trim s c"
  by (simp add: Trim_def)

lemma Trim_slash_back: "Trim (s @ [c]) c = Trim s c"
proof (cases "\<forall>x\<in>set s. x = c")
  case True
  then have a: "dropWhile (\<lambda>x. x = c) (s @ [c]) = []"
    and b: "dropWhile (\<lambda>x. x = c) s = []"
    unfolding dropWhile_eq_Nil_conv by simp_all
  show ?thesis unfolding Trim_def a b by simp
next
  case False
  then obtain x where "x \<in> set s" "\<not> x = c" by blast
  then have "dropWhile (\<lambda>x. x = c) (s @ [c]) = dropWhile (\<lambda>x. x = c) s @ [c]"
    by (rule dropWhile_append1)
  then show ?thesis by (simp add: Trim_def)
qed

lemma hd_dropWhile_neq: "dropWhile (\<lambda>x. x = c) xs \<noteq> [] \<Longrightarrow> hd (dropWhile (\<lambda>x. x = c) xs) \<noteq> c"
  using hd_dropWhile [of "\<lambda>x. x = c" xs] by simp

lemma Trim_no_slash:
  "Trim s c = [] \<or> (hd (Trim s c) \<noteq> c \<and> last (Trim s c) \<noteq> c)"
proof (cases "Trim s c = []")
  case True
  then show ?thesis by simp
next
  case False
  define a where "a = dropWhile (\<lambda>x. x = c) s"
  define b where "b = dropWhile (\<lambda>x. x = c) (rev a)"
  have t: "Trim s c = rev b" by (simp add: Trim_def a_def b_def)
  from False have b: "b \<noteq> []" by (simp add: t)
  then have hb: "hd b \<noteq> c" unfolding b_def by (rule hd_dropWhile_neq)
  have l: "last (Trim s c) \<noteq> c" using b hb by (simp add: t last_rev)
  from b have a: "a \<noteq> []" by (auto simp: b_def)
  then have ha: "hd a \<noteq> c" unfolding a_def by (rule hd_dropWhile_neq)
  have "rev a = takeWhile (\<lambda>x. x = c) (rev a) @ b"
    unfolding b_def by simp
  then have "rev (rev a) = rev (takeWhile (\<lambda>x. x = c) (rev a) @ b)" by simp
  then have "a = rev b @ rev (takeWhile (\<lambda>x. x = c) (rev a))" by simp
  then have "hd a = hd (rev b @ rev (takeWhile (\<lambda>x. x = c) (rev a)))" by simp
  also have "\<dots> = hd (rev b)" using b by simp
  finally have "hd (Trim s c) \<noteq> c" using ha by (simp add: t)
  with l show ?thesis by simp
qed

text \<open>
  C7. \<open>NewVaultListQuery\<close> strips the leading and trailing slashes of the path:
  \<open>/a/b/\<close> and \<open>a/b\<close> give queries of the same identity \<open>vault.list(a/b)\<close>, a slash
  in front of or behind any path does not change the identity, the path of a query
  neither starts nor ends with a slash, and the empty path is an error.
\<close>

theorem NewVaultListQuery_normalizes:
  "identity (NewVaultListQuery ''/a/b/'') = identity (NewVaultListQuery ''a/b'')
   \<and> identity (NewVaultListQuery ''a/b'') = Some ''vault.list(a/b)''
   \<and> NewVaultListQuery '''' = Inl (InvalidQuery '''')
   \<and> identity (NewVaultListQuery (CHR ''/'' # s)) = identity (NewVaultListQuery s)
   \<and> identity (NewVaultListQuery (s @ ''/'')) = identity (NewVaultListQuery s)
   \<and> (case NewVaultListQuery s of
        Inl e \<Rightarrow> True
      | Inr d \<Rightarrow> path d \<noteq> [] \<and> hd (path d) \<noteq> CHR ''/'' \<and> last (path d) \<noteq> CHR ''/'')"
proof -
  have 1: "identity (NewVaultListQuery ''/a/b/'') = Some ''vault.list(a/b)''"
    by (simp add: identity_def NewVaultListQuery_def Trim_def VaultListQuery_String_def)
  have 2: "identity (NewVaultListQuery ''a/b'') = Some ''vault.list(a/b)''"
    by (simp add: identity_def NewVaultListQuery_def Trim_def VaultListQuery_String_def)
  have 3: "NewVaultListQuery '''' = Inl (InvalidQuery '''')"
    by (simp add: NewVaultListQuery_def Trim_def)
  have 4: "identity (NewVaultListQuery (CHR ''/'' # s)) = identity (NewVaultListQuery s)"
    by (simp add: identity_def NewVaultListQuery_def Trim_slash_front Let_def)
  have 5: "identity (NewVaultListQuery (s @ ''/'')) = identity (NewVaultListQuery s)"
    by (simp add: identity_def NewVaultListQuery_def Trim_slash_back Let_def)
  have 6: "(case NewVaultListQuery s of
        Inl e \<Rightarrow> True
      | Inr d \<Rightarrow> path d \<noteq> [] \<and> hd (path d) \<noteq> CHR ''/'' \<and> last (path d) \<noteq> CHR ''/'')"
    using Trim_no_slash [of s "CHR ''/''"] by (auto simp: NewVaultListQuery_def Let_def)
  from 1 2 3 4 5 6 show ?thesis by simp
qed

subsection \<open>Atomic write\<close>

text \<open>
  C8. When the parent directory of the destination does not exist, \<open>atomicWrite\<close>
  without parent creation returns \<open>ErrNoParentDir\<close> (and no file system, so nothing is
  written), and \<open>atomicWrite\<close> with parent creation succeeds: afterwards the parent
  and all its ancestors are directories and the destination is a file that holds the
  bytes.
\<close>

theorem atomicWrite_missing_parent:
  assumes "Dir p \<notin> dirs fs"
  shows "atomicWrite p bytes perms False fs = Inl ErrNoParentDir
       \<and> (\<exists>fs' f. atomicWrite p bytes perms True fs = Inr fs'
               \<and> set (prefixes (Dir p)) \<subseteq> dirs fs'
               \<and> files fs' p = Some f \<and> contents f = bytes)"
  using assms by (simp add: atomicWrite_def MkdirAll_def)

theorem atomicWrite_missing_parent_witness:
  "Dir [''tmp'', ''out'', ''nope'', ''not'', ''it'', ''create''] \<notin> dirs outDir_removed
   \<and> atomicWrite [''tmp'', ''out'', ''nope'', ''not'', ''it'', ''create''] [] 420 False outDir_removed
       = Inl ErrNoParentDir
   \<and> (\<exists>fs' f. atomicWrite [''tmp'', ''out'', ''nope'', ''not'', ''it'', ''create''] [] 420 True
                 outDir_removed = Inr fs'
            \<and> set (prefixes (Dir [''tmp'', ''out'', ''nope'', ''not'', ''it'', ''create''])) \<subseteq> dirs fs'
            \<and> files fs' [''tmp'', ''out'', ''nope'', ''not'', ''it'', ''create''] = Some f
            \<and> contents f = [])"
proof -
  have h: "Dir [''tmp'', ''out'', ''nope'', ''not'', ''it'', ''create''] \<notin> dirs outDir_removed"
    by (simp add: Dir_def outDir_removed_def)
  from atomicWrite_missing_parent [OF h, of "[]" 420] h show ?thesis by simp
qed

subsection \<open>Resolver\<close>

lemma execute_render:
  "\<exists>\<sigma>'. execute t \<sigma> missing = (fst (render t (vals (store \<sigma>))),
                                 missing \<union> snd (render t (vals (store \<sigma>))), \<sigma>')
        \<and> vals (store \<sigma>') = vals (store \<sigma>) \<and> lastEmitted \<sigma>' = lastEmitted \<sigma>"
proof (induction t arbitrary: \<sigma> missing)
  case (Emit b)
  show ?case by simp
next
  case (Lookup dep k)
  let ?\<sigma>' = "\<sigma>\<lparr>store := snd (Recall dep (store \<sigma>)), watcher := Track dep (watcher \<sigma>)\<rparr>"
  have v: "vals (store ?\<sigma>') = vals (store \<sigma>)" "lastEmitted ?\<sigma>' = lastEmitted \<sigma>"
    by (simp_all add: Recall_def)
  show ?case
  proof (cases "vals (store \<sigma>) dep")
    case None
    from Lookup.IH [of "k []" ?\<sigma>' "insert dep missing"] obtain \<sigma>'' where
      "execute (k []) ?\<sigma>' (insert dep missing) =
         (fst (render (k []) (vals (store ?\<sigma>'))),
          insert dep missing \<union> snd (render (k []) (vals (store ?\<sigma>'))), \<sigma>'')"
      "vals (store \<sigma>'') = vals (store ?\<sigma>')" "lastEmitted \<sigma>'' = lastEmitted ?\<sigma>'"
      by (auto simp: range_eqI)
    with None v show ?thesis by (simp add: Recall_def Let_def)
  next
    case (Some x)
    from Lookup.IH [of "k x" ?\<sigma>' missing] obtain \<sigma>'' where
      "execute (k x) ?\<sigma>' missing =
         (fst (render (k x) (vals (store ?\<sigma>'))),
          missing \<union> snd (render (k x) (vals (store ?\<sigma>'))), \<sigma>'')"
      "vals (store \<sigma>'') = vals (store ?\<sigma>')" "lastEmitted \<sigma>'' = lastEmitted ?\<sigma>'"
      by (auto simp: range_eqI)
    with Some v show ?thesis by (simp add: Recall_def Let_def)
  qed
qed

lemma Run_render:
  "\<exists>\<sigma>'. Run t \<sigma> =
          (\<lparr> Contents = (if snd (render t (vals (store \<sigma>))) = {}
                         then fst (render t (vals (store \<sigma>))) else []),
             Complete = (snd (render t (vals (store \<sigma>))) = {}),
             NoChange = (snd (render t (vals (store \<sigma>))) = {}
                         \<and> lastEmitted \<sigma> = Some (fst (render t (vals (store \<sigma>))))) \<rparr>, \<sigma>')
        \<and> vals (store \<sigma>') = vals (store \<sigma>)
        \<and> lastEmitted \<sigma>' = (if snd (render t (vals (store \<sigma>))) = {}
                              then Some (fst (render t (vals (store \<sigma>))))
                              else lastEmitted \<sigma>)"
proof -
  let ?\<sigma>1 = "\<sigma>\<lparr>watcher := Mark (watcher \<sigma>)\<rparr>"
  from execute_render [of t ?\<sigma>1 "{}"] obtain \<sigma>2 where
    e: "execute t ?\<sigma>1 {} = (fst (render t (vals (store \<sigma>))), snd (render t (vals (store \<sigma>))), \<sigma>2)"
    and v: "vals (store \<sigma>2) = vals (store \<sigma>)" and l: "lastEmitted \<sigma>2 = lastEmitted \<sigma>"
    by auto
  show ?thesis
    unfolding Run_def Let_def e using v l by simp
qed

text \<open>
  C9. For every template and every state, two runs in a row with no publish to the
  Store between them execute to the same output and the same missing set and yield
  identical \<open>Contents\<close>; when the first is complete, the second is complete, reports no
  change and carries the output. \<open>Complete\<close> holds iff the pass produced no missing
  values, and \<open>NoChange\<close> iff \<open>Complete\<close> holds and the output equals the bytes emitted
  last, which are those of the previous complete pass.
\<close>

theorem Run_twice:
  assumes "Run t \<sigma> = (ev1, \<sigma>1)" and "Run t \<sigma>1 = (ev2, \<sigma>2)"
  shows "\<exists>bytes missing \<sigma>' \<sigma>''.
           execute t (\<sigma>\<lparr>watcher := Mark (watcher \<sigma>)\<rparr>) {} = (bytes, missing, \<sigma>')
         \<and> execute t (\<sigma>1\<lparr>watcher := Mark (watcher \<sigma>1)\<rparr>) {} = (bytes, missing, \<sigma>'')
         \<and> Contents ev1 = Contents ev2
         \<and> (Complete ev1 \<longrightarrow> Complete ev2 \<and> NoChange ev2 \<and> Contents ev2 = bytes)
         \<and> (Complete ev1 \<longleftrightarrow> missing = {})
         \<and> (NoChange ev1 \<longleftrightarrow> Complete ev1 \<and> lastEmitted \<sigma> = Some bytes)
         \<and> (Complete ev2 \<longleftrightarrow> missing = {})
         \<and> (NoChange ev2 \<longleftrightarrow> Complete ev2 \<and> lastEmitted \<sigma>1 = Some bytes)
         \<and> lastEmitted \<sigma>1 = (if Complete ev1 then Some bytes else lastEmitted \<sigma>)"
proof -
  define bytes where "bytes = fst (render t (vals (store \<sigma>)))"
  define missing where "missing = snd (render t (vals (store \<sigma>)))"
  from Run_render [of t \<sigma>] assms(1) have
    a: "ev1 = \<lparr> Contents = (if missing = {} then bytes else []),
             Complete = (missing = {}),
             NoChange = (missing = {} \<and> lastEmitted \<sigma> = Some bytes) \<rparr>"
    and v: "vals (store \<sigma>1) = vals (store \<sigma>)"
    and l: "lastEmitted \<sigma>1 = (if missing = {} then Some bytes else lastEmitted \<sigma>)"
    unfolding bytes_def missing_def by auto
  from Run_render [of t \<sigma>1] assms(2) have
    b: "ev2 = \<lparr> Contents = (if missing = {} then bytes else []),
             Complete = (missing = {}),
             NoChange = (missing = {} \<and> lastEmitted \<sigma>1 = Some bytes) \<rparr>"
    unfolding bytes_def missing_def v by auto
  from execute_render [of t "\<sigma>\<lparr>watcher := Mark (watcher \<sigma>)\<rparr>" "{}"] obtain \<sigma>' where
    e1: "execute t (\<sigma>\<lparr>watcher := Mark (watcher \<sigma>)\<rparr>) {} = (bytes, missing, \<sigma>')"
    unfolding bytes_def missing_def by auto
  from execute_render [of t "\<sigma>1\<lparr>watcher := Mark (watcher \<sigma>1)\<rparr>" "{}"] obtain \<sigma>'' where
    e2: "execute t (\<sigma>1\<lparr>watcher := Mark (watcher \<sigma>1)\<rparr>) {} = (bytes, missing, \<sigma>'')"
    unfolding bytes_def missing_def using v by auto
  have 0: "Contents ev1 = Contents ev2" by (simp add: a b)
  have 1: "Complete ev1 \<longleftrightarrow> missing = {}" by (simp add: a)
  have 2: "NoChange ev1 \<longleftrightarrow> Complete ev1 \<and> lastEmitted \<sigma> = Some bytes" by (simp add: a)
  have 3: "Complete ev2 \<longleftrightarrow> missing = {}" by (simp add: b)
  have 4: "NoChange ev2 \<longleftrightarrow> Complete ev2 \<and> lastEmitted \<sigma>1 = Some bytes" by (simp add: b)
  have 5: "Complete ev1 \<longrightarrow> Complete ev2 \<and> NoChange ev2 \<and> Contents ev2 = bytes"
    using 1 l unfolding b by simp
  have 6: "lastEmitted \<sigma>1 = (if Complete ev1 then Some bytes else lastEmitted \<sigma>)"
    using 1 l by simp
  from e1 e2 0 1 2 3 4 5 6 show ?thesis by blast
qed

theorem Run_twice_witness:
  "Run kv_template (fresh (Save ''kv(a)'' ''1'' NewStore))
     = (fst (Run kv_template (fresh (Save ''kv(a)'' ''1'' NewStore))),
        snd (Run kv_template (fresh (Save ''kv(a)'' ''1'' NewStore))))
   \<and> fst (Run kv_template (fresh (Save ''kv(a)'' ''1'' NewStore)))
       = \<lparr> Contents = ''a=1'', Complete = True, NoChange = False \<rparr>
   \<and> Complete (fst (Run kv_template (snd (Run kv_template (fresh (Save ''kv(a)'' ''1'' NewStore))))))
   \<and> NoChange (fst (Run kv_template (snd (Run kv_template (fresh (Save ''kv(a)'' ''1'' NewStore))))))
   \<and> Contents (fst (Run kv_template (snd (Run kv_template (fresh (Save ''kv(a)'' ''1'' NewStore))))))
       = ''a=1''
   \<and> \<not> Complete (fst (Run kv_template (fresh NewStore)))
   \<and> Contents (fst (Run kv_template (fresh NewStore)))
       = Contents (fst (Run kv_template (snd (Run kv_template (fresh NewStore)))))"
proof -
  let ?\<sigma> = "fresh (Save ''kv(a)'' ''1'' NewStore)"
  let ?\<tau> = "fresh NewStore"
  have h1: "Run kv_template ?\<sigma> = (fst (Run kv_template ?\<sigma>), snd (Run kv_template ?\<sigma>))"
    by simp
  have h2: "Run kv_template (snd (Run kv_template ?\<sigma>))
            = (fst (Run kv_template (snd (Run kv_template ?\<sigma>))),
               snd (Run kv_template (snd (Run kv_template ?\<sigma>))))"
    by simp
  have k1: "Run kv_template ?\<tau> = (fst (Run kv_template ?\<tau>), snd (Run kv_template ?\<tau>))"
    by simp
  have k2: "Run kv_template (snd (Run kv_template ?\<tau>))
            = (fst (Run kv_template (snd (Run kv_template ?\<tau>))),
               snd (Run kv_template (snd (Run kv_template ?\<tau>))))"
    by simp
  have f: "fst (Run kv_template ?\<sigma>) = \<lparr> Contents = ''a=1'', Complete = True, NoChange = False \<rparr>"
    by (simp add: Run_def kv_template_def fresh_def Save_def NewStore_def Recall_def Let_def)
  have g: "\<not> Complete (fst (Run kv_template ?\<tau>))"
    by (simp add: Run_def kv_template_def fresh_def NewStore_def Recall_def Let_def)
  from f have c: "Complete (fst (Run kv_template ?\<sigma>))"
    and b: "Contents (fst (Run kv_template ?\<sigma>)) = ''a=1''" by simp_all
  from Run_twice [OF h1 h2] c
  have s: "Contents (fst (Run kv_template ?\<sigma>))
             = Contents (fst (Run kv_template (snd (Run kv_template ?\<sigma>))))
           \<and> Complete (fst (Run kv_template (snd (Run kv_template ?\<sigma>))))
           \<and> NoChange (fst (Run kv_template (snd (Run kv_template ?\<sigma>))))"
    by blast
  from Run_twice [OF k1 k2]
  have u: "Contents (fst (Run kv_template ?\<tau>))
             = Contents (fst (Run kv_template (snd (Run kv_template ?\<tau>))))"
    by blast
  from s b have s': "Contents (fst (Run kv_template (snd (Run kv_template ?\<sigma>)))) = ''a=1''"
    by simp
  from h1 f s s' g u show ?thesis by (intro conjI) simp_all
qed

end
